theory Spec2Isabelle
  imports Complex_Main "HOL-Library.Sublist"
begin

section \<open>Data model of the chat service\<close>

text \<open>
  The records follow \<^verbatim>\<open>internal/service/chat/chat.go\<close>. A Go \<^verbatim>\<open>string\<close> is a byte
  sequence, here a \<^typ>\<open>string\<close> (a list of 8-bit characters); a \<^verbatim>\<open>time.Time\<close> is an
  abstract clock reading.
\<close>

type_synonym timestamp = nat

record ChatSummary =
  ID :: string
  Title :: string
  UpdatedAt :: timestamp

record Message =
  Role :: string
  Content :: string
  CreatedAt :: timestamp

record ChatView =
  Summary :: ChatSummary
  Messages :: "Message list"

text \<open>\<^verbatim>\<open>openai.Message\<close> and \<^verbatim>\<open>openai.Usage\<close> (the field names of the first are prefixed,
  since they would clash with those of \<^typ>\<open>Message\<close>).\<close>

record AIMessage =
  AIRole :: string
  AIContent :: string

record Usage =
  PromptTokens :: int
  CompletionTokens :: int
  TotalTokens :: int

text \<open>Every error value the service can return. \<open>NotAuthorized\<close> is
  \<^verbatim>\<open>fmt.Errorf("not authorized")\<close>; \<open>RedisNil\<close> is \<^verbatim>\<open>redis.Nil\<close>; \<open>WrongType\<close> is the
  server's answer to a command on a key that holds the other kind of value; \<open>IOError\<close> is a
  round trip that failed (connection lost, context cancelled); \<open>UnmarshalError\<close> is an error
  of \<^verbatim>\<open>json.Unmarshal\<close>; \<open>CompletionError\<close> is any error of \<^verbatim>\<open>ChatCompletion\<close>.\<close>

datatype error = RedisNil | WrongType | IOError | NotAuthorized | UnmarshalError | CompletionError

text \<open>
  \<^verbatim>\<open>encoding/json\<close> is not part of the repository: the four conversions the service uses
  are parameters. \<^verbatim>\<open>json.Marshal\<close> cannot fail on these two structs (strings and a clock
  reading of the current time), \<^verbatim>\<open>json.Unmarshal\<close> can.
\<close>

record codec =
  marshalSummary :: "ChatSummary \<Rightarrow> string"
  unmarshalSummary :: "string \<Rightarrow> ChatSummary option"
  marshalMessage :: "Message \<Rightarrow> string"
  unmarshalMessage :: "string \<Rightarrow> Message option"

type_synonym backend = "string \<Rightarrow> AIMessage list \<Rightarrow> real \<Rightarrow> error + (AIMessage \<times> Usage)"

section \<open>The backing store\<close>

text \<open>
  One Redis keyspace: a key holds a string or a non-empty list of strings. A command on
  a key of the other kind answers \<open>WrongType\<close> and changes nothing.
\<close>

datatype rvalue = RString string | RList "string list"

type_synonym keyspace = "string \<rightharpoonup> rvalue"

definition kv_get :: "keyspace \<Rightarrow> string \<Rightarrow> error + string" where
  "kv_get d k = (case d k of
       None \<Rightarrow> Inl RedisNil
     | Some (RString v) \<Rightarrow> Inr v
     | Some (RList xs) \<Rightarrow> Inl WrongType)"

text \<open>\<^verbatim>\<open>LRANGE\<close>: both ends inclusive, a negative index counts from the tail, indexes out
  of range are clipped.\<close>

definition lrange :: "string list \<Rightarrow> int \<Rightarrow> int \<Rightarrow> string list" where
  "lrange xs start stop =
     (let n = int (length xs);
          s = (if start < 0 then max 0 (n + start) else start);
          e = (if stop < 0 then n + stop else min stop (n - 1))
      in if e < s then [] else take (nat (e - s + 1)) (drop (nat s) xs))"

definition kv_lrange :: "keyspace \<Rightarrow> string \<Rightarrow> int \<Rightarrow> int \<Rightarrow> error + string list" where
  "kv_lrange d k start stop = (case d k of
       None \<Rightarrow> Inr []
     | Some (RList xs) \<Rightarrow> Inr (lrange xs start stop)
     | Some (RString v) \<Rightarrow> Inl WrongType)"

text \<open>\<^verbatim>\<open>LREM key count value\<close>: \<open>count > 0\<close> removes that many occurrences from the head,
  \<open>count < 0\<close> from the tail, \<open>count = 0\<close> all of them.\<close>

fun remove_n :: "nat \<Rightarrow> string \<Rightarrow> string list \<Rightarrow> string list" where
  "remove_n 0 v xs = xs"
| "remove_n (Suc n) v [] = []"
| "remove_n (Suc n) v (x # xs) = (if x = v then remove_n n v xs else x # remove_n (Suc n) v xs)"

definition lrem :: "int \<Rightarrow> string \<Rightarrow> string list \<Rightarrow> string list" where
  "lrem count v xs =
     (if count = 0 then removeAll v xs
      else if 0 < count then remove_n (nat count) v xs
      else rev (remove_n (nat (- count)) v (rev xs)))"

text \<open>A list that becomes empty is deleted with its key.\<close>

definition store_list :: "keyspace \<Rightarrow> string \<Rightarrow> string list \<Rightarrow> keyspace" where
  "store_list d k xs = (if xs = [] then d(k := None) else d(k \<mapsto> RList xs))"

datatype cmd =
    Set string string
  | LRem string int string
  | LPush string string
  | RPush string string

fun kv_apply :: "cmd \<Rightarrow> keyspace \<Rightarrow> error option \<times> keyspace" where
  "kv_apply (Set k v) d = (None, d(k \<mapsto> RString v))"
| "kv_apply (LRem k count v) d = (case d k of
       None \<Rightarrow> (None, d)
     | Some (RList xs) \<Rightarrow> (None, store_list d k (lrem count v xs))
     | Some (RString s) \<Rightarrow> (Some WrongType, d))"
| "kv_apply (LPush k v) d = (case d k of
       None \<Rightarrow> (None, d(k \<mapsto> RList [v]))
     | Some (RList xs) \<Rightarrow> (None, d(k \<mapsto> RList (v # xs)))
     | Some (RString s) \<Rightarrow> (Some WrongType, d))"
| "kv_apply (RPush k v) d = (case d k of
       None \<Rightarrow> (None, d(k \<mapsto> RList [v]))
     | Some (RList xs) \<Rightarrow> (None, d(k \<mapsto> RList (xs @ [v])))
     | Some (RString s) \<Rightarrow> (Some WrongType, d))"

text \<open>\<^verbatim>\<open>MULTI\<close> ... \<^verbatim>\<open>EXEC\<close>: the server runs every queued command in order, with no other
  client in between; a command that answers an error does not undo the others, and
  \<^verbatim>\<open>Exec\<close> returns the first error.\<close>

fun kv_exec :: "cmd list \<Rightarrow> keyspace \<Rightarrow> error option \<times> keyspace" where
  "kv_exec [] d = (None, d)"
| "kv_exec (c # cs) d =
     (case kv_apply c d of (e, d') \<Rightarrow>
        (case kv_exec cs d' of (e', d'') \<Rightarrow>
           ((case e of None \<Rightarrow> e' | Some x \<Rightarrow> Some x), d'')))"

text \<open>
  The world the service runs in: the keyspace, and what happens to each coming attempt
  of a round trip to the server. \<open>Served\<close>: the request is run and answered. \<open>Dropped\<close>:
  the request never reaches the server. \<open>ReplyLost\<close>: the request is run and its answer is
  lost. When the list is used up every attempt is served.
\<close>

datatype outcome = Served | Dropped | ReplyLost

record world =
  db :: keyspace
  net :: "outcome list"

text \<open>
  The client that \<^verbatim>\<open>store/redis.go\<close> builds is \<^verbatim>\<open>redis.NewClient\<close> with the options of the
  URL, so with the retries of go-redis: a command whose attempt fails is sent again, up to
  \<^verbatim>\<open>MaxRetries\<close> times (3 unless the URL says otherwise), and the error is returned when
  the last attempt has failed too. An attempt whose answer was lost has been run by the
  server all the same, and the command that is sent again is run again. (A failure that the
  client does not retry, a cancelled context, leaves the caller and the store as a failure
  of every attempt does.)
\<close>

definition maxRetries :: nat where
  "maxRetries = 3"

text \<open>\<open>attempts k ns\<close>, for a call that may still make \<open>k\<close> attempts: whether the call is
  answered, how many times the server has run the request, and what is left of the list.\<close>

fun attempts :: "nat \<Rightarrow> outcome list \<Rightarrow> bool \<times> nat \<times> outcome list" where
  "attempts 0 ns = (False, 0, ns)"
| "attempts (Suc k) [] = (True, 1, [])"
| "attempts (Suc k) (x # ns) =
     (if x = Served then (True, 1, ns)
      else (case attempts k ns of
              (a, n, ns') \<Rightarrow> (a, (if x = ReplyLost then Suc n else n), ns')))"

definition round_trip :: "world \<Rightarrow> bool \<times> nat \<times> world" where
  "round_trip w = (case attempts (Suc maxRetries) (net w) of
                     (a, n, ns) \<Rightarrow> (a, n, w\<lparr>net := ns\<rparr>))"

definition Redis_Get :: "string \<Rightarrow> world \<Rightarrow> (error + string) \<times> world" where
  "Redis_Get k w = (case round_trip w of (a, n, w') \<Rightarrow>
     (if a then kv_get (db w') k else Inl IOError, w'))"

definition Redis_LRange :: "string \<Rightarrow> int \<Rightarrow> int \<Rightarrow> world \<Rightarrow> (error + string list) \<times> world" where
  "Redis_LRange k start stop w = (case round_trip w of (a, n, w') \<Rightarrow>
     (if a then kv_lrange (db w') k start stop else Inl IOError, w'))"

text \<open>The commands of one request, run \<open>n\<close> times over; the answer is that of the last
  run.\<close>

fun kv_runs :: "nat \<Rightarrow> cmd list \<Rightarrow> keyspace \<Rightarrow> error option \<times> keyspace" where
  "kv_runs 0 cs d = (None, d)"
| "kv_runs (Suc n) cs d =
     (case kv_exec cs d of (e, d') \<Rightarrow> (if n = 0 then (e, d') else kv_runs n cs d'))"

text \<open>A write, alone or as a transaction, is one request: the server runs it once for
  every attempt that reaches it, and the client returns the answer of the attempt that is
  served, or \<open>IOError\<close> when none is.\<close>

definition Redis_Exec :: "cmd list \<Rightarrow> world \<Rightarrow> error option \<times> world" where
  "Redis_Exec cs w = (case round_trip w of (a, n, w') \<Rightarrow>
     (case kv_runs n cs (db w') of (e, d) \<Rightarrow>
        (if a then e else Some IOError, w'\<lparr>db := d\<rparr>)))"

definition Redis_RPush :: "string \<Rightarrow> string \<Rightarrow> world \<Rightarrow> error option \<times> world" where
  "Redis_RPush k v w = Redis_Exec [RPush k v] w"

section \<open>Strings\<close>

text \<open>
  \<^verbatim>\<open>strings.TrimSpace\<close> removes the leading and the trailing white space, as Unicode defines
  it, of a UTF-8 string: the six ASCII characters tab, line feed, vertical tab, form feed,
  carriage return and space, and U+0085, U+00A0, U+1680, U+2000 to U+200A, U+2028, U+2029,
  U+202F, U+205F and U+3000, in their encodings of two or three bytes.
\<close>

definition asciiSpace :: "char \<Rightarrow> bool" where
  "asciiSpace c = (c \<in> {CHR 0x09, CHR 0x0A, CHR 0x0B, CHR 0x0C, CHR 0x0D, CHR 0x20})"

definition space2 :: "char \<Rightarrow> char \<Rightarrow> bool" where
  "space2 a b = (a = CHR 0xC2 \<and> (b = CHR 0x85 \<or> b = CHR 0xA0))"

definition space3 :: "char \<Rightarrow> char \<Rightarrow> char \<Rightarrow> bool" where
  "space3 a b c =
     ((a = CHR 0xE1 \<and> b = CHR 0x9A \<and> c = CHR 0x80)
    \<or> (a = CHR 0xE2 \<and> b = CHR 0x80 \<and>
         c \<in> {CHR 0x80, CHR 0x81, CHR 0x82, CHR 0x83, CHR 0x84, CHR 0x85, CHR 0x86, CHR 0x87,
              CHR 0x88, CHR 0x89, CHR 0x8A, CHR 0xA8, CHR 0xA9, CHR 0xAF})
    \<or> (a = CHR 0xE2 \<and> b = CHR 0x81 \<and> c = CHR 0x9F)
    \<or> (a = CHR 0xE3 \<and> b = CHR 0x80 \<and> c = CHR 0x80))"

fun trimLeft :: "string \<Rightarrow> string" where
  "trimLeft (a # b # c # s) =
     (if asciiSpace a then trimLeft (b # c # s)
      else if space2 a b then trimLeft (c # s)
      else if space3 a b c then trimLeft s
      else a # b # c # s)"
| "trimLeft [a, b] =
     (if asciiSpace a then trimLeft [b] else if space2 a b then [] else [a, b])"
| "trimLeft [a] = (if asciiSpace a then [] else [a])"
| "trimLeft [] = []"

text \<open>The same from the tail, on the reversed string: the bytes of an encoding come in
  the opposite order.\<close>

fun trimLeftRev :: "string \<Rightarrow> string" where
  "trimLeftRev (c # b # a # s) =
     (if asciiSpace c then trimLeftRev (b # a # s)
      else if space2 b c then trimLeftRev (a # s)
      else if space3 a b c then trimLeftRev s
      else c # b # a # s)"
| "trimLeftRev [c, b] =
     (if asciiSpace c then trimLeftRev [b] else if space2 b c then [] else [c, b])"
| "trimLeftRev [c] = (if asciiSpace c then [] else [c])"
| "trimLeftRev [] = []"

definition TrimSpace :: "string \<Rightarrow> string" where
  "TrimSpace s = rev (trimLeftRev (rev (trimLeft s)))"

section \<open>The chat service\<close>

definition userChatsKey :: "string \<Rightarrow> string" where
  "userChatsKey email = ''userchats:'' @ email"

definition chatMetaKey :: "string \<Rightarrow> string" where
  "chatMetaKey chatID = ''chatmeta:'' @ chatID"

definition chatMessagesKey :: "string \<Rightarrow> string" where
  "chatMessagesKey chatID = ''chatmessages:'' @ chatID"

definition chatOwnerKey :: "string \<Rightarrow> string" where
  "chatOwnerKey chatID = ''chatowner:'' @ chatID"

text \<open>\<^verbatim>\<open>trimmed[:32]\<close> slices bytes.\<close>

definition summarizeTitle :: "string \<Rightarrow> string" where
  "summarizeTitle content =
     (let trimmed = TrimSpace content
      in if length trimmed > 32 then take 32 trimmed else trimmed)"

definition verifyOwner :: "string \<Rightarrow> string \<Rightarrow> world \<Rightarrow> (error + bool) \<times> world" where
  "verifyOwner userEmail chatID w =
     (case Redis_Get (chatOwnerKey chatID) w of
        (Inl e, w') \<Rightarrow> (if e = RedisNil then Inr False else Inl e, w')
      | (Inr owner, w') \<Rightarrow> (Inr (owner = userEmail), w'))"

definition saveChatMeta :: "codec \<Rightarrow> string \<Rightarrow> ChatSummary \<Rightarrow> world \<Rightarrow> error option \<times> world" where
  "saveChatMeta cd userEmail summary w =
     Redis_Exec
       [Set (chatMetaKey (ID summary)) (marshalSummary cd summary),
        Set (chatOwnerKey (ID summary)) userEmail,
        LRem (userChatsKey userEmail) 0 (ID summary),
        LPush (userChatsKey userEmail) (ID summary)] w"

text \<open>\<^verbatim>\<open>time.Now()\<close> is the argument \<open>now\<close>.\<close>

definition touchChat ::
  "codec \<Rightarrow> string \<Rightarrow> string \<Rightarrow> string \<Rightarrow> timestamp \<Rightarrow> world \<Rightarrow> error option \<times> world" where
  "touchChat cd userEmail chatID lastContent now w =
     (case Redis_Get (chatMetaKey chatID) w of
        (Inl e, w1) \<Rightarrow> (Some e, w1)
      | (Inr metaData, w1) \<Rightarrow>
          (case unmarshalSummary cd metaData of
             None \<Rightarrow> (Some UnmarshalError, w1)
           | Some summary \<Rightarrow>
               saveChatMeta cd userEmail
                 (summary\<lparr>Title := (if Title summary = ''New chat'' \<and> TrimSpace lastContent \<noteq> []
                                      then summarizeTitle lastContent else Title summary),
                           UpdatedAt := now\<rparr>) w1))"

text \<open>\<^verbatim>\<open>uuid.NewString()\<close> is the argument \<open>chatID\<close>.\<close>

definition NewChat ::
  "codec \<Rightarrow> string \<Rightarrow> string \<Rightarrow> string \<Rightarrow> timestamp \<Rightarrow> world \<Rightarrow> (error + ChatSummary) \<times> world" where
  "NewChat cd userEmail title chatID now w =
     (let summary = \<lparr>ID = chatID,
                     Title = (if TrimSpace title = [] then ''New chat'' else title),
                     UpdatedAt = now\<rparr>
      in case saveChatMeta cd userEmail summary w of
           (Some e, w') \<Rightarrow> (Inl e, w')
         | (None, w') \<Rightarrow> (Inr summary, w'))"

text \<open>The loop of \<^verbatim>\<open>ListChats\<close>: one \<^verbatim>\<open>GET\<close> for each identifier; \<^verbatim>\<open>continue\<close> on any
  error of the read and on any error of the decoding.\<close>

fun resolveSummaries ::
  "codec \<Rightarrow> string list \<Rightarrow> ChatSummary list \<Rightarrow> world \<Rightarrow> ChatSummary list \<times> world" where
  "resolveSummaries cd [] summaries w = (summaries, w)"
| "resolveSummaries cd (i # ids) summaries w =
     (case Redis_Get (chatMetaKey i) w of
        (Inl e, w') \<Rightarrow> resolveSummaries cd ids summaries w'
      | (Inr data, w') \<Rightarrow>
          (case unmarshalSummary cd data of
             None \<Rightarrow> resolveSummaries cd ids summaries w'
           | Some summary \<Rightarrow> resolveSummaries cd ids (summaries @ [summary]) w'))"

definition ListChats :: "codec \<Rightarrow> string \<Rightarrow> world \<Rightarrow> (error + ChatSummary list) \<times> world" where
  "ListChats cd userEmail w =
     (case Redis_LRange (userChatsKey userEmail) 0 19 w of
        (Inl e, w') \<Rightarrow> (if e = RedisNil then Inr [] else Inl e, w')
      | (Inr ids, w') \<Rightarrow>
          (if ids = [] then (Inr [], w')
           else (case resolveSummaries cd ids [] w' of (summaries, w'') \<Rightarrow> (Inr summaries, w''))))"

definition EnsureChat ::
  "codec \<Rightarrow> string \<Rightarrow> string \<Rightarrow> timestamp \<Rightarrow> world \<Rightarrow> (error + ChatSummary) \<times> world" where
  "EnsureChat cd userEmail chatID now w =
     (case ListChats cd userEmail w of
        (Inl e, w') \<Rightarrow> (Inl e, w')
      | (Inr summaries, w') \<Rightarrow>
          (case summaries of
             s # rest \<Rightarrow> (Inr s, w')
           | [] \<Rightarrow> NewChat cd userEmail ''New chat'' chatID now w'))"

text \<open>The loop of \<^verbatim>\<open>fetchMessages\<close> skips the entries that do not decode.\<close>

definition fetchMessages :: "codec \<Rightarrow> string \<Rightarrow> world \<Rightarrow> (error + Message list) \<times> world" where
  "fetchMessages cd chatID w =
     (case Redis_LRange (chatMessagesKey chatID) 0 (- 1) w of
        (Inl e, w') \<Rightarrow> (if e = RedisNil then Inr [] else Inl e, w')
      | (Inr vals, w') \<Rightarrow> (Inr (List.map_filter (unmarshalMessage cd) vals), w'))"

definition GetChat :: "codec \<Rightarrow> string \<Rightarrow> string \<Rightarrow> world \<Rightarrow> (error + ChatView) \<times> world" where
  "GetChat cd userEmail chatID w =
     (case verifyOwner userEmail chatID w of
        (Inl e, w1) \<Rightarrow> (Inl e, w1)
      | (Inr ok, w1) \<Rightarrow>
          (if \<not> ok then (Inl NotAuthorized, w1)
           else (case Redis_Get (chatMetaKey chatID) w1 of
                   (Inl e, w2) \<Rightarrow> (Inl e, w2)
                 | (Inr metaData, w2) \<Rightarrow>
                     (case unmarshalSummary cd metaData of
                        None \<Rightarrow> (Inl UnmarshalError, w2)
                      | Some summary \<Rightarrow>
                          (case fetchMessages cd chatID w2 of
                             (Inl e, w3) \<Rightarrow> (Inl e, w3)
                           | (Inr messages, w3) \<Rightarrow>
                               (Inr \<lparr>Summary = summary, Messages = messages\<rparr>, w3))))))"

text \<open>The two calls of \<^verbatim>\<open>time.Now()\<close> are \<open>now\<close> (the message) and \<open>now'\<close> (the touch).\<close>

definition AppendMessage ::
  "codec \<Rightarrow> string \<Rightarrow> string \<Rightarrow> string \<Rightarrow> string \<Rightarrow> timestamp \<Rightarrow> timestamp \<Rightarrow> world
     \<Rightarrow> (error + Message) \<times> world" where
  "AppendMessage cd userEmail chatID role content now now' w =
     (case verifyOwner userEmail chatID w of
        (Inl e, w1) \<Rightarrow> (Inl e, w1)
      | (Inr ok, w1) \<Rightarrow>
          (if \<not> ok then (Inl NotAuthorized, w1)
           else (let message = \<lparr>Role = role, Content = content, CreatedAt = now\<rparr>
                 in case Redis_RPush (chatMessagesKey chatID) (marshalMessage cd message) w1 of
                      (Some e, w2) \<Rightarrow> (Inl e, w2)
                    | (None, w2) \<Rightarrow>
                        (case touchChat cd userEmail chatID content now' w2 of
                           (Some e, w3) \<Rightarrow> (Inl e, w3)
                         | (None, w3) \<Rightarrow> (Inr message, w3)))))"

text \<open>\<^verbatim>\<open>s.AI.ChatCompletion\<close> is the argument \<open>ai\<close>.\<close>

definition RunCompletion ::
  "codec \<Rightarrow> backend \<Rightarrow> string \<Rightarrow> string \<Rightarrow> string \<Rightarrow> real \<Rightarrow> timestamp \<Rightarrow> timestamp \<Rightarrow> world
     \<Rightarrow> (error + Message \<times> Usage) \<times> world" where
  "RunCompletion cd ai userEmail chatID model temperature now now' w =
     (case verifyOwner userEmail chatID w of
        (Inl e, w1) \<Rightarrow> (Inl e, w1)
      | (Inr ok, w1) \<Rightarrow>
          (if \<not> ok then (Inl NotAuthorized, w1)
           else (case fetchMessages cd chatID w1 of
                   (Inl e, w2) \<Rightarrow> (Inl e, w2)
                 | (Inr messages, w2) \<Rightarrow>
                     (let aiMessages =
                            map (\<lambda>m. \<lparr>AIRole = Role m, AIContent = Content m\<rparr>) messages
                      in case ai model aiMessages temperature of
                           Inl e \<Rightarrow> (Inl e, w2)
                         | Inr (response, usage) \<Rightarrow>
                             (let stored = \<lparr>Role = AIRole response, Content = AIContent response,
                                            CreatedAt = now\<rparr>
                              in case Redis_RPush (chatMessagesKey chatID)
                                        (marshalMessage cd stored) w2 of
                                   (Some e, w3) \<Rightarrow> (Inl e, w3)
                                 | (None, w3) \<Rightarrow>
                                     (case touchChat cd userEmail chatID (AIContent response)
                                             now' w3 of
                                        (Some e, w4) \<Rightarrow> (Inl e, w4)
                                      | (None, w4) \<Rightarrow> (Inr (stored, usage), w4)))))))"

section \<open>Sequences of calls\<close>

text \<open>A call of the public interface, with what the environment supplies to it (the
  fresh identifier, the clock readings).\<close>

datatype call =
    CallNewChat string string string timestamp
  | CallEnsureChat string string timestamp
  | CallListChats string
  | CallGetChat string string
  | CallAppendMessage string string string string timestamp timestamp
  | CallRunCompletion string string string real timestamp timestamp

fun perform :: "codec \<Rightarrow> backend \<Rightarrow> call \<Rightarrow> world \<Rightarrow> world" where
  "perform cd ai (CallNewChat u title c now) w = snd (NewChat cd u title c now w)"
| "perform cd ai (CallEnsureChat u c now) w = snd (EnsureChat cd u c now w)"
| "perform cd ai (CallListChats u) w = snd (ListChats cd u w)"
| "perform cd ai (CallGetChat u c) w = snd (GetChat cd u c w)"
| "perform cd ai (CallAppendMessage u c role content now now') w =
     snd (AppendMessage cd u c role content now now' w)"
| "perform cd ai (CallRunCompletion u c model temperature now now') w =
     snd (RunCompletion cd ai u c model temperature now now' w)"

fun run :: "codec \<Rightarrow> backend \<Rightarrow> call list \<Rightarrow> world \<Rightarrow> world" where
  "run cd ai [] w = w"
| "run cd ai (c # cs) w = run cd ai cs (perform cd ai c w)"

text \<open>The store before the first call, with any future of the network.\<close>

definition initial :: "outcome list \<Rightarrow> world" where
  "initial ns = \<lparr>db = Map.empty, net = ns\<rparr>"

text \<open>An append to a chat: of a message of the caller's, by \<open>AppendMessage\<close>, or of the
  reply of the backend, by \<open>RunCompletion\<close>; with the clock readings of the call.\<close>

datatype append =
    ByUser string string timestamp timestamp
  | ByBackend string real timestamp timestamp

fun appendOne ::
  "codec \<Rightarrow> backend \<Rightarrow> string \<Rightarrow> string \<Rightarrow> append \<Rightarrow> world \<Rightarrow> (error + Message) \<times> world" where
  "appendOne cd ai u c (ByUser role content now now') w =
     AppendMessage cd u c role content now now' w"
| "appendOne cd ai u c (ByBackend model temperature now now') w =
     (case RunCompletion cd ai u c model temperature now now' w of
        (Inl e, w') \<Rightarrow> (Inl e, w')
      | (Inr (m, usage), w') \<Rightarrow> (Inr m, w'))"

text \<open>The appends of a list, one after the other, to one chat and by one user, as long as
  they succeed: the messages that the calls have returned, if all have succeeded.\<close>

fun appendAll ::
  "codec \<Rightarrow> backend \<Rightarrow> string \<Rightarrow> string \<Rightarrow> append list \<Rightarrow> world \<Rightarrow> Message list option \<times> world" where
  "appendAll cd ai u c [] w = (Some [], w)"
| "appendAll cd ai u c (a # as) w =
     (case appendOne cd ai u c a w of
        (Inl e, w') \<Rightarrow> (None, w')
      | (Inr m, w') \<Rightarrow>
          (case appendAll cd ai u c as w' of
             (None, w'') \<Rightarrow> (None, w'')
           | (Some ms, w'') \<Rightarrow> (Some (m # ms), w'')))"

section \<open>Reading the keyspace\<close>

text \<open>What the four families of keys hold for a user or a chat.\<close>

definition index_of :: "keyspace \<Rightarrow> string \<Rightarrow> string list" where
  "index_of d u = (case d (userChatsKey u) of Some (RList xs) \<Rightarrow> xs | _ \<Rightarrow> [])"

definition log_of :: "keyspace \<Rightarrow> string \<Rightarrow> string list" where
  "log_of d c = (case d (chatMessagesKey c) of Some (RList xs) \<Rightarrow> xs | _ \<Rightarrow> [])"

definition owner_of :: "keyspace \<Rightarrow> string \<Rightarrow> string option" where
  "owner_of d c = (case d (chatOwnerKey c) of Some (RString v) \<Rightarrow> Some v | _ \<Rightarrow> None)"

definition meta_of :: "keyspace \<Rightarrow> string \<Rightarrow> string option" where
  "meta_of d c = (case d (chatMetaKey c) of Some (RString v) \<Rightarrow> Some v | _ \<Rightarrow> None)"

definition summary_of :: "codec \<Rightarrow> keyspace \<Rightarrow> string \<Rightarrow> ChatSummary option" where
  "summary_of cd d c = (case meta_of d c of None \<Rightarrow> None | Some v \<Rightarrow> unmarshalSummary cd v)"

text \<open>The keyspace after the transaction of \<^const>\<open>saveChatMeta\<close> has run.\<close>

definition saved :: "codec \<Rightarrow> string \<Rightarrow> ChatSummary \<Rightarrow> keyspace \<Rightarrow> keyspace" where
  "saved cd u s d =
     d(chatMetaKey (ID s) \<mapsto> RString (marshalSummary cd s),
       chatOwnerKey (ID s) \<mapsto> RString u,
       userChatsKey u \<mapsto> RList (ID s # removeAll (ID s) (index_of d u)))"

text \<open>Every string is under a metadata or an ownership key, every list under an index or a
  message key.\<close>

definition typed :: "keyspace \<Rightarrow> bool" where
  "typed d \<longleftrightarrow>
     (\<forall>k v. d k = Some (RString v) \<longrightarrow> (\<exists>c. k = chatMetaKey c \<or> k = chatOwnerKey c)) \<and>
     (\<forall>k xs. d k = Some (RList xs) \<longrightarrow> (\<exists>x. k = userChatsKey x \<or> k = chatMessagesKey x))"

text \<open>A metadata record and an ownership record come together.\<close>

definition paired :: "keyspace \<Rightarrow> bool" where
  "paired d \<longleftrightarrow> (\<forall>c. (d (chatMetaKey c) = None) = (d (chatOwnerKey c) = None))"

text \<open>Every metadata record that decodes carries the identifier of its key.\<close>

definition keyed :: "codec \<Rightarrow> keyspace \<Rightarrow> bool" where
  "keyed cd d \<longleftrightarrow> (\<forall>c s. summary_of cd d c = Some s \<longrightarrow> ID s = c)"

section \<open>Characters\<close>



section \<open>A codec to run the service on\<close>

text \<open>
  A codec with which the definitions above compute on concrete inputs. A string is written
  as its length in unary, a \<open>0\<close>, and its bytes; a clock reading in unary. Reading back what
  was written gives the value written, for every value.
\<close>

definition putStr :: "string \<Rightarrow> string" where
  "putStr s = replicate (length s) (CHR ''1'') @ CHR ''0'' # s"

definition getStr :: "string \<Rightarrow> (string \<times> string) option" where
  "getStr bs =
     (let n = length (takeWhile (\<lambda>c. c = CHR ''1'') bs); r = drop n bs
      in case r of
           [] \<Rightarrow> None
         | z # r' \<Rightarrow> if z = CHR ''0'' \<and> n \<le> length r' then Some (take n r', drop n r') else None)"

definition getNat :: "string \<Rightarrow> nat option" where
  "getNat bs = (if list_all (\<lambda>c. c = CHR ''1'') bs then Some (length bs) else None)"

definition unaryCodec :: codec where
  "unaryCodec =
     \<lparr>marshalSummary = (\<lambda>s. putStr (ID s) @ putStr (Title s) @ replicate (UpdatedAt s) (CHR ''1'')),
      unmarshalSummary = (\<lambda>bs.
         case getStr bs of None \<Rightarrow> None
         | Some (i, r1) \<Rightarrow>
             (case getStr r1 of None \<Rightarrow> None
              | Some (t, r2) \<Rightarrow>
                  (case getNat r2 of None \<Rightarrow> None
                   | Some n \<Rightarrow> Some \<lparr>ID = i, Title = t, UpdatedAt = n\<rparr>))),
      marshalMessage = (\<lambda>m. putStr (Role m) @ putStr (Content m) @ replicate (CreatedAt m) (CHR ''1'')),
      unmarshalMessage = (\<lambda>bs.
         case getStr bs of None \<Rightarrow> None
         | Some (r, r1) \<Rightarrow>
             (case getStr r1 of None \<Rightarrow> None
              | Some (c, r2) \<Rightarrow>
                  (case getNat r2 of None \<Rightarrow> None
                   | Some n \<Rightarrow> Some \<lparr>Role = r, Content = c, CreatedAt = n\<rparr>)))\<rparr>"

text \<open>A completion backend that answers every request with \<open>fine\<close>, and one that fails.\<close>

definition fineBackend :: backend where
  "fineBackend model msgs temperature =
     Inr (\<lparr>AIRole = ''assistant'', AIContent = ''fine''\<rparr>,
          \<lparr>PromptTokens = int (length msgs), CompletionTokens = 1,
           TotalTokens = int (length msgs) + 1\<rparr>)"

definition downBackend :: backend where
  "downBackend model msgs temperature = Inl CompletionError"

text \<open>The keyspace after \<open>alice\<close> has created the chat \<open>c1\<close> with an empty title at time 1.\<close>

definition aliceDb :: keyspace where
  "aliceDb =
     [chatMetaKey ''c1'' \<mapsto>
        RString (marshalSummary unaryCodec \<lparr>ID = ''c1'', Title = ''New chat'', UpdatedAt = 1\<rparr>),
      chatOwnerKey ''c1'' \<mapsto> RString ''alice'',
      userChatsKey ''alice'' \<mapsto> RList [''c1'']]"

section \<open>Observing a run\<close>

text \<open>Whether the coming call of the client is answered, how many times the server runs
  its request, and the world after it.\<close>

definition served :: "world \<Rightarrow> bool" where
  "served w \<longleftrightarrow> fst (round_trip w)"

definition runs :: "world \<Rightarrow> nat" where
  "runs w = fst (snd (round_trip w))"

definition advance :: "world \<Rightarrow> world" where
  "advance w = snd (snd (round_trip w))"

text \<open>The coming call is answered at its first attempt.\<close>

definition first_try :: "world \<Rightarrow> bool" where
  "first_try w \<longleftrightarrow> (case net w of [] \<Rightarrow> True | x # ns \<Rightarrow> x = Served)"

text \<open>The coming \<open>n\<close> attempts are all served: \<open>n\<close> calls, each answered at once.\<close>

definition all_served :: "nat \<Rightarrow> world \<Rightarrow> bool" where
  "all_served n w \<longleftrightarrow> list_all (\<lambda>x. x = Served) (take n (net w))"

text \<open>The four commands that \<^const>\<open>saveChatMeta\<close> queues.\<close>

definition saveCmds :: "codec \<Rightarrow> string \<Rightarrow> ChatSummary \<Rightarrow> cmd list" where
  "saveCmds cd u s =
     [Set (chatMetaKey (ID s)) (marshalSummary cd s),
      Set (chatOwnerKey (ID s)) u,
      LRem (userChatsKey u) 0 (ID s),
      LPush (userChatsKey u) (ID s)]"

text \<open>The keyspaces that the writes of the service lead to: every write is the append of
  one message or the transaction of \<^const>\<open>saveChatMeta\<close>, run by the server.\<close>

inductive evolves :: "codec \<Rightarrow> keyspace \<Rightarrow> keyspace \<Rightarrow> bool" for cd :: codec and d :: keyspace where
  same: "evolves cd d d"
| pushed: "evolves cd d d1 \<Longrightarrow> evolves cd d (snd (kv_exec [RPush (chatMessagesKey c) v] d1))"
| saved: "evolves cd d d1 \<Longrightarrow> evolves cd d (snd (kv_exec (saveCmds cd u s) d1))"

text \<open>The summary that \<^const>\<open>touchChat\<close> writes back.\<close>

definition retitle :: "ChatSummary \<Rightarrow> string \<Rightarrow> timestamp \<Rightarrow> ChatSummary" where
  "retitle summary lastContent now =
     summary\<lparr>Title := (if Title summary = ''New chat'' \<and> TrimSpace lastContent \<noteq> []
                          then summarizeTitle lastContent else Title summary),
              UpdatedAt := now\<rparr>"

text \<open>What \<^const>\<open>RunCompletion\<close> sends to the backend: the messages of the log that decode,
  as role and content, in the order of the log.\<close>

definition prompt_of :: "codec \<Rightarrow> keyspace \<Rightarrow> string \<Rightarrow> AIMessage list" where
  "prompt_of cd d c =
     map (\<lambda>m. \<lparr>AIRole = Role m, AIContent = Content m\<rparr>)
       (List.map_filter (unmarshalMessage cd) (log_of d c))"

text \<open>No index lists a chat twice.\<close>

definition duplicate_free :: "keyspace \<Rightarrow> bool" where
  "duplicate_free d \<longleftrightarrow> (\<forall>u. distinct (index_of d u))"

text \<open>What the codec must do for a metadata record to stay under its own key: a summary
  that is written and read back has the identifier it was written with.\<close>

definition id_stable :: "codec \<Rightarrow> bool" where
  "id_stable cd \<longleftrightarrow>
     (\<forall>s s'. unmarshalSummary cd (marshalSummary cd s) = Some s' \<longrightarrow> ID s' = ID s)"

text \<open>The codec can read every summary it writes.\<close>

definition decodes :: "codec \<Rightarrow> bool" where
  "decodes cd \<longleftrightarrow> (\<forall>s. unmarshalSummary cd (marshalSummary cd s) \<noteq> None)"


text \<open>Every attempt to come is served: the network has no fault in store.\<close>

definition faultless :: "world \<Rightarrow> bool" where
  "faultless w \<longleftrightarrow> list_all (\<lambda>x. x = Served) (net w)"

section \<open>Keys\<close>

text \<open>The four families of keys are disjoint, and a key determines its user or chat.\<close>

lemma key_inj [simp]:
  "userChatsKey a = userChatsKey b \<longleftrightarrow> a = b"
  "chatMetaKey a = chatMetaKey b \<longleftrightarrow> a = b"
  "chatMessagesKey a = chatMessagesKey b \<longleftrightarrow> a = b"
  "chatOwnerKey a = chatOwnerKey b \<longleftrightarrow> a = b"
  by (simp_all add: userChatsKey_def chatMetaKey_def chatMessagesKey_def chatOwnerKey_def)

lemma key_disj [simp]:
  "userChatsKey a \<noteq> chatMetaKey b" "userChatsKey a \<noteq> chatMessagesKey b"
  "userChatsKey a \<noteq> chatOwnerKey b" "chatMetaKey b \<noteq> userChatsKey a"
  "chatMessagesKey b \<noteq> userChatsKey a" "chatOwnerKey b \<noteq> userChatsKey a"
  "chatMetaKey a \<noteq> chatMessagesKey b" "chatMetaKey a \<noteq> chatOwnerKey b"
  "chatMessagesKey b \<noteq> chatMetaKey a" "chatOwnerKey b \<noteq> chatMetaKey a"
  "chatMessagesKey a \<noteq> chatOwnerKey b" "chatOwnerKey b \<noteq> chatMessagesKey a"
  by (simp_all add: userChatsKey_def chatMetaKey_def chatMessagesKey_def chatOwnerKey_def)

lemma lrange_first20: "lrange xs 0 19 = take 20 xs"
  by (auto simp: lrange_def Let_def min_def)

lemma lrange_all: "lrange xs 0 (- 1) = xs"
  by (auto simp: lrange_def Let_def)

section \<open>The commands of the store\<close>

lemma attempts_runs: "fst (attempts k ns) \<Longrightarrow> 0 < fst (snd (attempts k ns))"
  by (induction k ns rule: attempts.induct) (auto split: prod.splits)

lemma attempts_bound: "fst (snd (attempts k ns)) \<le> k"
  by (induction k ns rule: attempts.induct) (auto split: prod.splits)

lemma db_round_trip [simp]: "db (snd (snd (round_trip w))) = db w"
  by (simp add: round_trip_def split: prod.splits)

lemma db_advance [simp]: "db (advance w) = db w"
  by (simp add: advance_def)

lemma served_runs: "served w \<Longrightarrow> 0 < runs w"
  using attempts_runs [of "Suc maxRetries" "net w"]
  by (simp add: served_def runs_def round_trip_def split: prod.splits)

lemma runs_bound: "runs w \<le> Suc maxRetries"
  using attempts_bound [of "Suc maxRetries" "net w"]
  by (auto simp: runs_def round_trip_def split: prod.splits)

lemma first_try_served: "first_try w \<Longrightarrow> served w"
  by (cases "net w") (simp_all add: first_try_def served_def round_trip_def)

lemma first_try_runs: "first_try w \<Longrightarrow> runs w = 1"
  by (cases "net w") (simp_all add: first_try_def runs_def round_trip_def)

lemma first_try_advance: "first_try w \<Longrightarrow> advance w = w\<lparr>net := tl (net w)\<rparr>"
  by (cases "net w") (simp_all add: first_try_def advance_def round_trip_def)

lemma Redis_Get_eq:
  "Redis_Get k w = (if served w then kv_get (db w) k else Inl IOError, advance w)"
  by (simp add: Redis_Get_def served_def advance_def case_prod_beta)

lemma Redis_LRange_eq:
  "Redis_LRange k a b w = (if served w then kv_lrange (db w) k a b else Inl IOError, advance w)"
  by (simp add: Redis_LRange_def served_def advance_def case_prod_beta)

lemma Redis_Exec_eq:
  "Redis_Exec cs w =
     (if served w then fst (kv_runs (runs w) cs (db w)) else Some IOError,
      (advance w)\<lparr>db := snd (kv_runs (runs w) cs (db w))\<rparr>)"
  by (simp add: Redis_Exec_def served_def advance_def runs_def case_prod_beta)

lemma Redis_Exec_None:
  "Redis_Exec cs w = (None, w') \<Longrightarrow>
     served w \<and> fst (kv_runs (runs w) cs (db w)) = None
     \<and> w' = (advance w)\<lparr>db := snd (kv_runs (runs w) cs (db w))\<rparr>"
  by (auto simp: Redis_Exec_eq split: if_splits)

lemma Redis_Exec_db:
  "db (snd (Redis_Exec cs w)) = snd (kv_runs (runs w) cs (db w))"
  by (simp add: Redis_Exec_eq)

lemma Redis_Exec_net [simp]: "net (snd (Redis_Exec cs w)) = net (advance w)"
  by (simp add: Redis_Exec_eq)

lemma Redis_Exec_not_served:
  "\<not> served w \<Longrightarrow> fst (Redis_Exec cs w) = Some IOError"
  by (simp add: Redis_Exec_eq)

lemma saveChatMeta_eq: "saveChatMeta cd u s w = Redis_Exec (saveCmds cd u s) w"
  by (simp add: saveChatMeta_def saveCmds_def)

lemma index_of_cases:
  "d (userChatsKey u) = None \<Longrightarrow> index_of d u = []"
  "d (userChatsKey u) = Some (RList xs) \<Longrightarrow> index_of d u = xs"
  "d (userChatsKey u) = Some (RString v) \<Longrightarrow> index_of d u = []"
  by (simp_all add: index_of_def)

lemma kv_exec_save:
  "kv_exec (saveCmds cd u s) d =
     (if \<exists>v. d (userChatsKey u) = Some (RString v)
      then (Some WrongType, d(chatMetaKey (ID s) \<mapsto> RString (marshalSummary cd s),
                              chatOwnerKey (ID s) \<mapsto> RString u))
      else (None, saved cd u s d))"
proof (cases "d (userChatsKey u)")
  case None
  then show ?thesis
    by (simp add: saveCmds_def saved_def index_of_def)
next
  case (Some r)
  show ?thesis
  proof (cases r)
    case (RString v)
    with Some show ?thesis by (simp add: saveCmds_def)
  next
    case (RList xs)
    with Some show ?thesis
      by (auto simp: saveCmds_def saved_def index_of_def lrem_def store_list_def)
  qed
qed

lemma kv_exec_push:
  "kv_exec [RPush k v] d =
     (if \<exists>s. d k = Some (RString s) then (Some WrongType, d)
      else (None, d(k \<mapsto> RList ((case d k of Some (RList xs) \<Rightarrow> xs | _ \<Rightarrow> []) @ [v]))))"
  by (auto split: option.splits rvalue.splits)

text \<open>The transaction of \<open>saveChatMeta\<close> run again changes nothing more; a push run again
  appends again.\<close>

lemma saved_saved: "saved cd u s (saved cd u s d) = saved cd u s d"
  by (simp add: saved_def index_of_def)

lemma kv_exec_save_again:
  "kv_exec (saveCmds cd u s) (snd (kv_exec (saveCmds cd u s) d)) = kv_exec (saveCmds cd u s) d"
proof (cases "\<exists>v. d (userChatsKey u) = Some (RString v)")
  case True
  then show ?thesis unfolding kv_exec_save by auto
next
  case False
  then show ?thesis unfolding kv_exec_save by (simp add: saved_saved) (simp add: saved_def)
qed

lemma kv_runs_save:
  "kv_runs n (saveCmds cd u s) d = (if n = 0 then (None, d) else kv_exec (saveCmds cd u s) d)"
proof (induction n arbitrary: d)
  case 0
  show ?case by simp
next
  case (Suc n)
  show ?case
  proof (cases n)
    case 0
    then show ?thesis by (simp add: case_prod_beta)
  next
    case (Suc m)
    have "kv_runs (Suc n) (saveCmds cd u s) d =
        kv_runs n (saveCmds cd u s) (snd (kv_exec (saveCmds cd u s) d))"
      using Suc by (simp add: case_prod_beta)
    also have "\<dots> = kv_exec (saveCmds cd u s) (snd (kv_exec (saveCmds cd u s) d))"
      using Suc.IH Suc by simp
    also have "\<dots> = kv_exec (saveCmds cd u s) d" by (rule kv_exec_save_again)
    finally show ?thesis by simp
  qed
qed

lemma kv_runs_push:
  "kv_runs n [RPush k v] d =
     (if n = 0 then (None, d)
      else if \<exists>s. d k = Some (RString s) then (Some WrongType, d)
      else (None, d(k \<mapsto> RList ((case d k of Some (RList xs) \<Rightarrow> xs | _ \<Rightarrow> []) @ replicate n v))))"
proof (induction n arbitrary: d)
  case 0
  show ?case by simp
next
  case (Suc n)
  show ?case
  proof (cases n)
    case 0
    then show ?thesis unfolding kv_runs.simps kv_exec_push by simp
  next
    case (Suc m)
    have r: "replicate m v @ [v] = v # replicate m v"
      by (simp add: replicate_append_same)
    show ?thesis
      unfolding kv_runs.simps kv_exec_push Suc.IH using Suc
      by (auto simp: r split: option.splits rvalue.splits)
  qed
qed

lemma saveChatMeta_exec:
  "saveChatMeta cd u s w =
     (if served w then fst (kv_exec (saveCmds cd u s) (db w)) else Some IOError,
      (advance w)\<lparr>db := (if runs w = 0 then db w else snd (kv_exec (saveCmds cd u s) (db w)))\<rparr>)"
  using served_runs [of w] unfolding saveChatMeta_eq Redis_Exec_eq kv_runs_save by auto

section \<open>What an operation can do to the keyspace\<close>

lemma verifyOwner_eq:
  "verifyOwner u c w =
     (if served w
      then (case db w (chatOwnerKey c) of
              None \<Rightarrow> Inr False
            | Some (RString v) \<Rightarrow> Inr (v = u)
            | Some (RList xs) \<Rightarrow> Inl WrongType)
      else Inl IOError, advance w)"
  by (simp add: verifyOwner_def Redis_Get_eq kv_get_def split: option.splits rvalue.splits)

lemma verifyOwner_db [simp]: "db (snd (verifyOwner u c w)) = db w"
  by (simp add: verifyOwner_eq)

lemma fetchMessages_eq:
  "fetchMessages cd c w =
     (if served w
      then (if \<exists>v. db w (chatMessagesKey c) = Some (RString v) then Inl WrongType
            else Inr (List.map_filter (unmarshalMessage cd) (log_of (db w) c)))
      else Inl IOError, advance w)"
  by (auto simp: fetchMessages_def Redis_LRange_eq kv_lrange_def log_of_def lrange_all
      map_filter_simps split: option.splits rvalue.splits)

lemma fetchMessages_db [simp]: "db (snd (fetchMessages cd c w)) = db w"
  by (simp add: fetchMessages_eq)

declare kv_exec.simps [simp del]

lemma resolveSummaries_db [simp]: "db (snd (resolveSummaries cd ids acc w)) = db w"
  by (induction cd ids acc w rule: resolveSummaries.induct)
     (auto simp: Redis_Get_eq split: sum.splits option.splits if_splits)

lemma ListChats_db [simp]: "db (snd (ListChats cd u w)) = db w"
proof -
  have "db (snd (resolveSummaries cd ids [] (advance w))) = db w" for ids
    by simp
  then show ?thesis
    by (simp add: ListChats_def Redis_LRange_eq case_prod_beta split: sum.splits)
qed

lemma GetChat_db [simp]: "db (snd (GetChat cd u c w)) = db w"
  by (auto simp: GetChat_def verifyOwner_eq Redis_Get_eq fetchMessages_eq
      split: sum.splits prod.splits option.splits rvalue.splits if_splits)

lemma evolves_trans: "evolves cd d1 d2 \<Longrightarrow> evolves cd d0 d1 \<Longrightarrow> evolves cd d0 d2"
  by (induction rule: evolves.induct) (auto intro: evolves.intros)

lemma kv_runs_push_evolves:
  "evolves cd d0 d \<Longrightarrow> evolves cd d0 (snd (kv_runs n [RPush (chatMessagesKey c) v] d))"
proof (induction n arbitrary: d)
  case 0
  then show ?case by simp
next
  case (Suc n)
  from Suc.prems have "evolves cd d0 (snd (kv_exec [RPush (chatMessagesKey c) v] d))"
    by (rule evolves.pushed)
  from Suc.IH [OF this] Suc.prems show ?case
    by (auto simp: case_prod_beta intro: evolves.pushed)
qed

lemma Redis_Exec_push_evolves:
  "Redis_Exec [RPush (chatMessagesKey c) v] w = (e, w') \<Longrightarrow> evolves cd d (db w) \<Longrightarrow>
   evolves cd d (db w')"
  using Redis_Exec_db [of "[RPush (chatMessagesKey c) v]" w] by (auto intro: kv_runs_push_evolves)

lemma saveChatMeta_evolves:
  "saveChatMeta cd u s w = (e, w') \<Longrightarrow> evolves cd d (db w) \<Longrightarrow> evolves cd d (db w')"
  using Redis_Exec_db [of "saveCmds cd u s" w]
  by (auto simp: saveChatMeta_eq kv_runs_save intro: evolves.saved)

lemma touchChat_evolves:
  "touchChat cd u c content now w = (e, w') \<Longrightarrow> evolves cd d (db w) \<Longrightarrow> evolves cd d (db w')"
  by (auto simp: touchChat_def Redis_Get_eq intro: saveChatMeta_evolves
      split: sum.splits option.splits if_splits)

lemma NewChat_evolves:
  "NewChat cd u title c now w = (r, w') \<Longrightarrow> evolves cd d (db w) \<Longrightarrow> evolves cd d (db w')"
  by (auto simp: NewChat_def Let_def intro: saveChatMeta_evolves
      split: prod.splits option.splits)

lemma ListChats_evolves:
  "ListChats cd u w = (r, w') \<Longrightarrow> evolves cd d (db w) \<Longrightarrow> evolves cd d (db w')"
  using ListChats_db [of cd u w] by simp

lemma GetChat_evolves:
  "GetChat cd u c w = (r, w') \<Longrightarrow> evolves cd d (db w) \<Longrightarrow> evolves cd d (db w')"
  using GetChat_db [of cd u c w] by simp

lemma EnsureChat_evolves:
  "EnsureChat cd u c now w = (r, w') \<Longrightarrow> evolves cd d (db w) \<Longrightarrow> evolves cd d (db w')"
  by (auto simp: EnsureChat_def intro: NewChat_evolves ListChats_evolves
      split: prod.splits sum.splits list.splits)

lemma push_touch_evolves:
  assumes "Redis_Exec [RPush (chatMessagesKey c) v] w0 = (e, w2)"
    and "touchChat cd u c' content now w2 = (e', w3)"
    and "db w0 = db w" and "evolves cd d (db w)"
  shows "evolves cd d (db w2)" and "evolves cd d (db w3)"
proof -
  from assms(3,4) have "evolves cd d (db w0)" by simp
  with assms(1) show "evolves cd d (db w2)" by (rule Redis_Exec_push_evolves)
  with assms(2) show "evolves cd d (db w3)" by (rule touchChat_evolves)
qed

lemma AppendMessage_evolves:
  assumes "AppendMessage cd u c role content now now' w = (r, w')" and "evolves cd d (db w)"
  shows "evolves cd d (db w')"
proof -
  let ?v = "marshalMessage cd \<lparr>Role = role, Content = content, CreatedAt = now\<rparr>"
  obtain e w2 where p: "Redis_Exec [RPush (chatMessagesKey c) ?v] (advance w) = (e, w2)"
    by (cases "Redis_Exec [RPush (chatMessagesKey c) ?v] (advance w)")
  obtain e' w3 where t: "touchChat cd u c content now' w2 = (e', w3)"
    by (cases "touchChat cd u c content now' w2")
  note push_touch_evolves [OF p t _ assms(2), simplified]
  with assms p t show ?thesis
    by (auto simp: AppendMessage_def verifyOwner_eq Let_def Redis_RPush_def
        split: sum.splits option.splits rvalue.splits if_splits)
qed

lemma RunCompletion_evolves:
  assumes "RunCompletion cd ai u c model temperature now now' w = (r, w')"
    and "evolves cd d (db w)"
  shows "evolves cd d (db w')"
proof (cases "ai model (map (\<lambda>m. \<lparr>AIRole = Role m, AIContent = Content m\<rparr>)
                 (List.map_filter (unmarshalMessage cd) (log_of (db w) c))) temperature")
  case (Inl e)
  with assms show ?thesis
    by (auto simp: RunCompletion_def verifyOwner_eq fetchMessages_eq Let_def
        split: option.splits rvalue.splits if_splits)
next
  case (Inr p)
  obtain response usage where pr: "p = (response, usage)" by (cases p)
  let ?v = "marshalMessage cd
              \<lparr>Role = AIRole response, Content = AIContent response, CreatedAt = now\<rparr>"
  obtain e w2 where p: "Redis_Exec [RPush (chatMessagesKey c) ?v] (advance (advance w)) = (e, w2)"
    by (cases "Redis_Exec [RPush (chatMessagesKey c) ?v] (advance (advance w))")
  obtain e' w3 where t: "touchChat cd u c (AIContent response) now' w2 = (e', w3)"
    by (cases "touchChat cd u c (AIContent response) now' w2")
  note push_touch_evolves [OF p t _ assms(2), simplified]
  with assms p t Inr pr show ?thesis
    by (auto simp: RunCompletion_def verifyOwner_eq fetchMessages_eq Let_def Redis_RPush_def
        split: option.splits rvalue.splits if_splits)
qed

lemma perform_evolves: "evolves cd d (db w) \<Longrightarrow> evolves cd d (db (perform cd ai call w))"
proof (cases call)
  case (CallNewChat u t c n)
  then show "evolves cd d (db w) \<Longrightarrow> ?thesis"
    using NewChat_evolves [OF surjective_pairing] by simp
next
  case (CallEnsureChat u c n)
  then show "evolves cd d (db w) \<Longrightarrow> ?thesis"
    using EnsureChat_evolves [OF surjective_pairing] by simp
next
  case (CallListChats u)
  then show "evolves cd d (db w) \<Longrightarrow> ?thesis" by simp
next
  case (CallGetChat u c)
  then show "evolves cd d (db w) \<Longrightarrow> ?thesis" by simp
next
  case (CallAppendMessage u c r x n n')
  then show "evolves cd d (db w) \<Longrightarrow> ?thesis"
    using AppendMessage_evolves [OF surjective_pairing] by simp
next
  case (CallRunCompletion u c m t n n')
  then show "evolves cd d (db w) \<Longrightarrow> ?thesis"
    using RunCompletion_evolves [OF surjective_pairing] by simp
qed

lemma run_evolves: "evolves cd d (db w) \<Longrightarrow> evolves cd d (db (run cd ai calls w))"
  by (induction calls arbitrary: w) (simp_all add: perform_evolves)

section \<open>Invariants of the keyspace\<close>

lemma push_index [simp]: "index_of (snd (kv_exec [RPush (chatMessagesKey c) v] d)) u = index_of d u"
  unfolding kv_exec_push by (simp add: index_of_def)

lemma push_owner [simp]: "owner_of (snd (kv_exec [RPush (chatMessagesKey c) v] d)) c' = owner_of d c'"
  unfolding kv_exec_push by (simp add: owner_of_def)

lemma push_meta [simp]: "meta_of (snd (kv_exec [RPush (chatMessagesKey c) v] d)) c' = meta_of d c'"
  unfolding kv_exec_push by (simp add: meta_of_def)

lemma push_summary [simp]:
  "summary_of cd (snd (kv_exec [RPush (chatMessagesKey c) v] d)) c' = summary_of cd d c'"
  by (simp add: summary_of_def)

lemma push_log:
  "log_of (snd (kv_exec [RPush (chatMessagesKey c) v] d)) c' =
     (if c' = c \<and> (\<forall>s. d (chatMessagesKey c) \<noteq> Some (RString s)) then log_of d c @ [v]
      else log_of d c')"
  unfolding kv_exec_push by (auto simp: log_of_def split: option.splits rvalue.splits)

lemma save_log [simp]: "log_of (snd (kv_exec (saveCmds cd u s) d)) c = log_of d c"
  unfolding kv_exec_save by (simp add: log_of_def saved_def)

lemma save_index:
  "index_of (snd (kv_exec (saveCmds cd u s) d)) u' =
     (if u' = u \<and> (\<forall>v. d (userChatsKey u) \<noteq> Some (RString v))
      then ID s # removeAll (ID s) (index_of d u) else index_of d u')"
  unfolding kv_exec_save by (auto simp: index_of_def saved_def)

lemma save_meta:
  "meta_of (snd (kv_exec (saveCmds cd u s) d)) c =
     (if c = ID s then Some (marshalSummary cd s) else meta_of d c)"
  unfolding kv_exec_save by (auto simp: meta_of_def saved_def)

lemma save_owner:
  "owner_of (snd (kv_exec (saveCmds cd u s) d)) c =
     (if c = ID s then Some u else owner_of d c)"
  unfolding kv_exec_save by (auto simp: owner_of_def saved_def)

lemma typed_push: "typed d \<Longrightarrow> typed (snd (kv_exec [RPush (chatMessagesKey c) v] d))"
  unfolding typed_def kv_exec_push by (auto split: if_splits)

lemma typed_save: "typed d \<Longrightarrow> typed (snd (kv_exec (saveCmds cd u s) d))"
  unfolding typed_def kv_exec_save saved_def by (auto split: if_splits)

lemma typed_evolves: "evolves cd d d' \<Longrightarrow> typed d \<Longrightarrow> typed d'"
  by (induction rule: evolves.induct) (simp_all add: typed_push typed_save)

lemma typed_index: "typed d \<Longrightarrow> d (userChatsKey u) \<noteq> Some (RString v)"
  by (auto simp: typed_def)

lemma typed_log: "typed d \<Longrightarrow> d (chatMessagesKey c) \<noteq> Some (RString v)"
  by (auto simp: typed_def)

lemma typed_meta: "typed d \<Longrightarrow> d (chatMetaKey c) \<noteq> Some (RList xs)"
  by (auto simp: typed_def)

lemma typed_owner: "typed d \<Longrightarrow> d (chatOwnerKey c) \<noteq> Some (RList xs)"
  by (auto simp: typed_def)

lemma paired_push: "paired d \<Longrightarrow> paired (snd (kv_exec [RPush (chatMessagesKey c) v] d))"
  unfolding paired_def kv_exec_push by simp

lemma paired_save: "paired d \<Longrightarrow> paired (snd (kv_exec (saveCmds cd u s) d))"
  unfolding paired_def kv_exec_save saved_def by simp

lemma paired_evolves: "evolves cd d d' \<Longrightarrow> paired d \<Longrightarrow> paired d'"
  by (induction rule: evolves.induct) (simp_all add: paired_push paired_save)

lemma duplicate_free_evolves: "evolves cd d d' \<Longrightarrow> duplicate_free d \<Longrightarrow> duplicate_free d'"
  by (induction rule: evolves.induct) (simp_all add: duplicate_free_def save_index distinct_removeAll)

lemma keyed_push: "keyed cd d \<Longrightarrow> keyed cd (snd (kv_exec [RPush (chatMessagesKey c) v] d))"
  by (simp add: keyed_def)

lemma keyed_save:
  assumes "id_stable cd" and "keyed cd d"
  shows "keyed cd (snd (kv_exec (saveCmds cd u s) d))"
  unfolding keyed_def
proof (intro allI impI)
  fix c s'
  assume a: "summary_of cd (snd (kv_exec (saveCmds cd u s) d)) c = Some s'"
  show "ID s' = c"
  proof (cases "c = ID s")
    case True
    with a have "unmarshalSummary cd (marshalSummary cd s) = Some s'"
      by (simp add: summary_of_def save_meta)
    with assms(1) True show ?thesis by (simp add: id_stable_def)
  next
    case False
    with a have "summary_of cd d c = Some s'"
      by (simp add: summary_of_def save_meta)
    with assms(2) show ?thesis by (simp add: keyed_def)
  qed
qed

lemma keyed_evolves: "evolves cd d d' \<Longrightarrow> id_stable cd \<Longrightarrow> keyed cd d \<Longrightarrow> keyed cd d'"
  by (induction rule: evolves.induct) (simp_all add: keyed_push keyed_save)

lemma initial_invariants:
  "typed (db (initial ns))" "paired (db (initial ns))" "duplicate_free (db (initial ns))"
  "keyed cd (db (initial ns))"
  by (simp_all add: initial_def typed_def paired_def duplicate_free_def keyed_def index_of_def
      summary_of_def meta_of_def)

lemma reachable_invariants:
  assumes "w = run cd ai calls (initial ns)"
  shows "typed (db w)" and "paired (db w)" and "duplicate_free (db w)"
    and "id_stable cd \<Longrightarrow> keyed cd (db w)"
proof -
  have e: "evolves cd (db (initial ns)) (db w)"
    unfolding assms by (rule run_evolves) (rule evolves.same)
  show "typed (db w)" using e initial_invariants(1) by (rule typed_evolves)
  show "paired (db w)" using e initial_invariants(2) by (rule paired_evolves)
  show "duplicate_free (db w)" using e initial_invariants(3) by (rule duplicate_free_evolves)
  show "id_stable cd \<Longrightarrow> keyed cd (db w)"
    using keyed_evolves [OF e _ initial_invariants(4)] by simp
qed

section \<open>The unary codec reads back what it writes\<close>

lemma takeWhile_replicate_stop:
  "P x \<Longrightarrow> \<not> P y \<Longrightarrow> takeWhile P (replicate n x @ y # ys) = replicate n x"
  by (induction n) simp_all

lemma getStr_putStr: "getStr (putStr s @ rest) = Some (s, rest)"
  by (simp add: getStr_def putStr_def Let_def takeWhile_replicate_stop)

lemma getNat_replicate: "getNat (replicate n (CHR ''1'')) = Some n"
  by (simp add: getNat_def list_all_iff)

lemma unary_summary_roundtrip:
  "unmarshalSummary unaryCodec (marshalSummary unaryCodec s) = Some s"
  by (simp add: unaryCodec_def getStr_putStr getNat_replicate)

lemma unary_message_roundtrip:
  "unmarshalMessage unaryCodec (marshalMessage unaryCodec m) = Some m"
  by (simp add: unaryCodec_def getStr_putStr getNat_replicate)

lemma unary_id_stable: "id_stable unaryCodec"
  by (simp add: id_stable_def unary_summary_roundtrip)

section \<open>The steps of an operation\<close>

lemma map_filter_snoc:
  "List.map_filter f (xs @ [x]) =
     List.map_filter f xs @ (case f x of None \<Rightarrow> [] | Some y \<Rightarrow> [y])"
  by (simp add: List.map_filter_def split: option.splits)

lemma map_filter_append:
  "List.map_filter f (xs @ ys) = List.map_filter f xs @ List.map_filter f ys"
  by (simp add: List.map_filter_def)

lemma map_filter_replicate:
  "List.map_filter f (replicate n x) = (case f x of None \<Rightarrow> [] | Some y \<Rightarrow> replicate n y)"
  by (induction n) (simp_all add: List.map_filter_simps split: option.splits)

lemma RPush_None:
  assumes "Redis_RPush (chatMessagesKey c) v w = (None, w')"
  shows "served w"
    and "w' = (advance w)\<lparr>db := (db w)(chatMessagesKey c \<mapsto>
                 RList (log_of (db w) c @ replicate (runs w) v))\<rparr>"
    and "log_of (db w') c = log_of (db w) c @ replicate (runs w) v"
    and "evolves cd (db w) (db w')"
    and "0 < runs w"
proof -
  from assms have e: "Redis_Exec [RPush (chatMessagesKey c) v] w = (None, w')"
    by (simp add: Redis_RPush_def)
  note n = Redis_Exec_None [OF e]
  from n show s: "served w" by simp
  from s show r: "0 < runs w" by (rule served_runs)
  from n have f: "fst (kv_runs (runs w) [RPush (chatMessagesKey c) v] (db w)) = None" by simp
  with r have t: "\<forall>s. db w (chatMessagesKey c) \<noteq> Some (RString s)"
    unfolding kv_runs_push by (auto split: if_splits)
  with n r show w': "w' = (advance w)\<lparr>db := (db w)(chatMessagesKey c \<mapsto>
                 RList (log_of (db w) c @ replicate (runs w) v))\<rparr>"
    unfolding kv_runs_push by (simp add: log_of_def)
  show "log_of (db w') c = log_of (db w) c @ replicate (runs w) v"
    unfolding w' by (simp add: log_of_def)
  from e show "evolves cd (db w) (db w')"
    by (rule Redis_Exec_push_evolves) (rule evolves.same)
qed

lemma saveChatMeta_log:
  "saveChatMeta cd u s w = (e, w') \<Longrightarrow> log_of (db w') c = log_of (db w) c"
  using Redis_Exec_db [of "saveCmds cd u s" w] by (auto simp: saveChatMeta_eq kv_runs_save)

lemma touchChat_log:
  "touchChat cd u c content now w = (e, w') \<Longrightarrow> log_of (db w') c' = log_of (db w) c'"
  by (auto simp: touchChat_def Redis_Get_eq dest: saveChatMeta_log
      split: sum.splits option.splits if_splits)

lemma touchChat_None:
  assumes "touchChat cd u c content now w = (None, w')"
  obtains sm where "served w" and "summary_of cd (db w) c = Some sm"
    and "saveChatMeta cd u (retitle sm content now) (advance w) = (None, w')"
  using assms
  by (auto simp: touchChat_def Redis_Get_eq kv_get_def summary_of_def meta_of_def retitle_def
      split: sum.splits option.splits rvalue.splits if_splits)

lemma saveChatMeta_None:
  assumes "saveChatMeta cd u s w = (None, w')"
  shows "served w" and "\<forall>v. db w (userChatsKey u) \<noteq> Some (RString v)"
    and "w' = (advance w)\<lparr>db := saved cd u s (db w)\<rparr>"
proof -
  note n = Redis_Exec_None [OF assms [unfolded saveChatMeta_eq]]
  from n show s: "served w" by simp
  from s have r: "0 < runs w" by (rule served_runs)
  from n r have "fst (kv_exec (saveCmds cd u s) (db w)) = None" by (simp add: kv_runs_save)
  then show t: "\<forall>v. db w (userChatsKey u) \<noteq> Some (RString v)"
    unfolding kv_exec_save by (auto split: if_splits)
  with n r show "w' = (advance w)\<lparr>db := saved cd u s (db w)\<rparr>"
    unfolding kv_runs_save kv_exec_save by simp
qed

lemma AppendMessage_owner:
  assumes "db w (chatOwnerKey c) = Some (RString u)" and "served w"
  shows "AppendMessage cd u c role content now now' w =
     (case Redis_RPush (chatMessagesKey c)
             (marshalMessage cd \<lparr>Role = role, Content = content, CreatedAt = now\<rparr>) (advance w) of
        (Some e, w2) \<Rightarrow> (Inl e, w2)
      | (None, w2) \<Rightarrow>
          (case touchChat cd u c content now' w2 of
             (Some e, w3) \<Rightarrow> (Inl e, w3)
           | (None, w3) \<Rightarrow> (Inr \<lparr>Role = role, Content = content, CreatedAt = now\<rparr>, w3)))"
  using assms by (simp add: AppendMessage_def verifyOwner_eq Let_def)

lemma verifyOwner_True:
  "verifyOwner u c w = (Inr True, w1) \<Longrightarrow>
     served w \<and> db w (chatOwnerKey c) = Some (RString u) \<and> w1 = advance w"
  by (auto simp: verifyOwner_eq split: if_splits option.splits rvalue.splits)

lemma AppendMessage_Inr:
  assumes "AppendMessage cd u c role content now now' w = (Inr m, w')"
  obtains w2 where "verifyOwner u c w = (Inr True, advance w)"
    and "m = \<lparr>Role = role, Content = content, CreatedAt = now\<rparr>"
    and "Redis_RPush (chatMessagesKey c) (marshalMessage cd m) (advance w) = (None, w2)"
    and "touchChat cd u c content now' w2 = (None, w')"
  using assms
  by (auto simp: AppendMessage_def verifyOwner_eq Let_def
      split: if_splits option.splits rvalue.splits prod.splits)

lemma GetChat_Inr:
  assumes "GetChat cd u c w = (Inr v, w')"
  shows "db w (chatOwnerKey c) = Some (RString u)"
    and "summary_of cd (db w) c = Some (Summary v)"
    and "Messages v = List.map_filter (unmarshalMessage cd) (log_of (db w) c)"
    and "db w' = db w"
  using assms
  by (auto simp: GetChat_def verifyOwner_eq Redis_Get_eq fetchMessages_eq kv_get_def
      summary_of_def meta_of_def
      split: if_splits option.splits rvalue.splits prod.splits sum.splits)

section \<open>Worlds to evaluate the service in\<close>

lemma served_Nil:
  "net w = [] \<Longrightarrow> served w" "net w = [] \<Longrightarrow> advance w = w" "net w = [] \<Longrightarrow> runs w = 1"
  by (simp_all add: served_def advance_def runs_def round_trip_def)

lemma trip_Served:
  "served \<lparr>db = d, net = Served # ns\<rparr>"
  "runs \<lparr>db = d, net = Served # ns\<rparr> = 1"
  "advance \<lparr>db = d, net = Served # ns\<rparr> = \<lparr>db = d, net = ns\<rparr>"
  by (simp_all add: served_def advance_def runs_def round_trip_def)

lemma trip_Dropped:
  "\<not> served \<lparr>db = d, net = Dropped # Dropped # Dropped # Dropped # ns\<rparr>"
  "runs \<lparr>db = d, net = Dropped # Dropped # Dropped # Dropped # ns\<rparr> = 0"
  "advance \<lparr>db = d, net = Dropped # Dropped # Dropped # Dropped # ns\<rparr> = \<lparr>db = d, net = ns\<rparr>"
  by (simp_all add: served_def advance_def runs_def round_trip_def maxRetries_def
      eval_nat_numeral)

lemma trip_ReplyLost:
  "served \<lparr>db = d, net = ReplyLost # Served # ns\<rparr>"
  "runs \<lparr>db = d, net = ReplyLost # Served # ns\<rparr> = 2"
  "advance \<lparr>db = d, net = ReplyLost # Served # ns\<rparr> = \<lparr>db = d, net = ns\<rparr>"
  by (simp_all add: served_def advance_def runs_def round_trip_def maxRetries_def
      eval_nat_numeral)

lemma run_alice:
  "run unaryCodec ai [CallNewChat ''alice'' '''' ''c1'' 1] (initial (Served # ns)) =
     \<lparr>db = aliceDb, net = ns\<rparr>"
  "run unaryCodec ai [CallNewChat ''alice'' '''' ''c1'' 1] (initial []) =
     \<lparr>db = aliceDb, net = []\<rparr>"
  by (simp_all add: NewChat_def saveChatMeta_exec initial_def trip_Served served_Nil
      kv_exec_save saved_def index_of_def TrimSpace_def Let_def aliceDb_def)

lemma aliceDb_at [simp]:
  "aliceDb (chatOwnerKey ''c1'') = Some (RString ''alice'')"
  "aliceDb (chatMetaKey ''c1'') =
     Some (RString (marshalSummary unaryCodec \<lparr>ID = ''c1'', Title = ''New chat'', UpdatedAt = 1\<rparr>))"
  "aliceDb (userChatsKey ''alice'') = Some (RList [''c1''])"
  "aliceDb (chatMessagesKey c) = None"
  by (simp_all add: aliceDb_def)


section \<open>When an operation succeeds\<close>

lemma all_served_Suc: "all_served (Suc n) w \<longleftrightarrow> first_try w \<and> all_served n (advance w)"
  by (cases "net w")
     (auto simp: all_served_def first_try_def advance_def round_trip_def)

lemma all_served_0 [simp]: "all_served 0 w"
  by (simp add: all_served_def)

lemma all_served_Nil [simp]: "net w = [] \<Longrightarrow> all_served n w"
  by (simp add: all_served_def)

lemma all_served_db [simp]: "all_served n (w\<lparr>db := d\<rparr>) = all_served n w"
  by (simp add: all_served_def)

lemma served_db [simp]: "served (w\<lparr>db := d\<rparr>) = served w"
  by (simp add: served_def round_trip_def split: prod.splits)

lemma runs_db [simp]: "runs (w\<lparr>db := d\<rparr>) = runs w"
  by (simp add: runs_def round_trip_def split: prod.splits)

lemma first_try_db [simp]: "first_try (w\<lparr>db := d\<rparr>) = first_try w"
  by (simp add: first_try_def)

lemma advance_db: "advance (w\<lparr>db := d\<rparr>) = (advance w)\<lparr>db := d\<rparr>"
  by (simp add: advance_def round_trip_def split: prod.splits)

lemma saveChatMeta_succeeds:
  assumes "served w" and "\<forall>v. db w (userChatsKey u) \<noteq> Some (RString v)"
  shows "saveChatMeta cd u s w = (None, (advance w)\<lparr>db := saved cd u s (db w)\<rparr>)"
  using assms served_runs [OF assms(1)] unfolding saveChatMeta_exec kv_exec_save by simp

lemma touchChat_succeeds:
  assumes "all_served 2 w" and "summary_of cd (db w) c = Some sm"
    and "\<forall>v. db w (userChatsKey u) \<noteq> Some (RString v)"
  shows "touchChat cd u c content now w =
           (None, (advance (advance w))\<lparr>db := saved cd u (retitle sm content now) (db w)\<rparr>)"
proof -
  from assms(1) have s: "served w" "served (advance w)"
    by (simp_all add: numeral_2_eq_2 all_served_Suc first_try_served)
  from assms(2) obtain data where d: "db w (chatMetaKey c) = Some (RString data)"
    "unmarshalSummary cd data = Some sm"
    by (auto simp: summary_of_def meta_of_def split: option.splits rvalue.splits)
  have "saveChatMeta cd u (retitle sm content now) (advance w) =
          (None, (advance (advance w))\<lparr>db := saved cd u (retitle sm content now) (db w)\<rparr>)"
    using saveChatMeta_succeeds [OF s(2), of u cd] assms(3) by simp
  with s d show ?thesis
    by (simp add: touchChat_def Redis_Get_eq kv_get_def retitle_def)
qed

lemma RPush_served:
  assumes "served w" and "\<forall>v. db w (chatMessagesKey c) \<noteq> Some (RString v)"
  shows "Redis_RPush (chatMessagesKey c) v w =
           (None, (advance w)\<lparr>db := (db w)(chatMessagesKey c \<mapsto>
                     RList (log_of (db w) c @ replicate (runs w) v))\<rparr>)"
  using assms served_runs [OF assms(1)] unfolding Redis_RPush_def Redis_Exec_eq kv_runs_push
  by (simp add: log_of_def)

lemma RPush_succeeds:
  assumes "first_try w" and "\<forall>v. db w (chatMessagesKey c) \<noteq> Some (RString v)"
  shows "Redis_RPush (chatMessagesKey c) v w =
           (None, (advance w)\<lparr>db := (db w)(chatMessagesKey c \<mapsto> RList (log_of (db w) c @ [v]))\<rparr>)"
  using RPush_served [OF first_try_served [OF assms(1)] assms(2), of v]
  by (simp add: first_try_runs [OF assms(1)])

lemma summary_of_push [simp]:
  "summary_of cd (d(chatMessagesKey c \<mapsto> x)) c' = summary_of cd d c'"
  by (simp add: summary_of_def meta_of_def)

lemma AppendMessage_succeeds:
  assumes "all_served 4 w" and "db w (chatOwnerKey c) = Some (RString u)"
    and "summary_of cd (db w) c = Some sm"
    and "\<forall>v. db w (chatMessagesKey c) \<noteq> Some (RString v)"
    and "\<forall>v. db w (userChatsKey u) \<noteq> Some (RString v)"
  shows "AppendMessage cd u c role content now now' w =
           (Inr \<lparr>Role = role, Content = content, CreatedAt = now\<rparr>,
            (advance (advance (advance (advance w))))
              \<lparr>db := saved cd u (retitle sm content now')
                       ((db w)(chatMessagesKey c \<mapsto>
                          RList (log_of (db w) c @
                            [marshalMessage cd \<lparr>Role = role, Content = content, CreatedAt = now\<rparr>])))\<rparr>)"
proof -
  let ?v = "marshalMessage cd \<lparr>Role = role, Content = content, CreatedAt = now\<rparr>"
  let ?d = "(db w)(chatMessagesKey c \<mapsto> RList (log_of (db w) c @ [?v]))"
  from assms(1) have s: "served w" "first_try (advance w)" "all_served 2 (advance (advance w))"
    by (simp_all add: eval_nat_numeral all_served_Suc first_try_served)
  have p: "Redis_RPush (chatMessagesKey c) ?v (advance w) = (None, (advance (advance w))\<lparr>db := ?d\<rparr>)"
    using RPush_succeeds [OF s(2), of c ?v] assms(4) by simp
  have t: "touchChat cd u c content now' ((advance (advance w))\<lparr>db := ?d\<rparr>) =
      (None, (advance (advance (advance (advance w))))\<lparr>db := saved cd u (retitle sm content now') ?d\<rparr>)"
    using touchChat_succeeds [of "(advance (advance w))\<lparr>db := ?d\<rparr>" cd c sm u content now']
      s(3) assms(3,5) by (simp add: advance_db)
  show ?thesis
    by (simp add: AppendMessage_owner [OF assms(2) s(1)] p t)
qed

lemma RunCompletion_owner:
  assumes "db w (chatOwnerKey c) = Some (RString u)" and "all_served 2 w"
    and "\<forall>v. db w (chatMessagesKey c) \<noteq> Some (RString v)"
  shows "RunCompletion cd ai u c model temperature now now' w =
     (case ai model (prompt_of cd (db w) c) temperature of
        Inl e \<Rightarrow> (Inl e, advance (advance w))
      | Inr (response, usage) \<Rightarrow>
          (case Redis_RPush (chatMessagesKey c)
                  (marshalMessage cd \<lparr>Role = AIRole response, Content = AIContent response,
                                      CreatedAt = now\<rparr>) (advance (advance w)) of
             (Some e, w3) \<Rightarrow> (Inl e, w3)
           | (None, w3) \<Rightarrow>
               (case touchChat cd u c (AIContent response) now' w3 of
                  (Some e, w4) \<Rightarrow> (Inl e, w4)
                | (None, w4) \<Rightarrow>
                    (Inr (\<lparr>Role = AIRole response, Content = AIContent response,
                           CreatedAt = now\<rparr>, usage), w4))))"
proof -
  from assms(2) have "served w" "served (advance w)"
    by (simp_all add: eval_nat_numeral all_served_Suc first_try_served)
  with assms(1,3) show ?thesis
    by (simp add: RunCompletion_def verifyOwner_eq fetchMessages_eq Let_def prompt_of_def
        split: sum.split prod.split)
qed

lemma RunCompletion_early:
  assumes "db w (chatOwnerKey c) = Some (RString u)"
    and "\<not> (served w \<and> served (advance w)
             \<and> (\<forall>v. db w (chatMessagesKey c) \<noteq> Some (RString v)))"
  shows "isl (fst (RunCompletion cd ai u c model temperature now now' w))"
    and "db (snd (RunCompletion cd ai u c model temperature now now' w)) = db w"
  using assms
  by (auto simp: RunCompletion_def verifyOwner_eq fetchMessages_eq Let_def)

lemma RunCompletion_succeeds:
  assumes "all_served 5 w" and "db w (chatOwnerKey c) = Some (RString u)"
    and "summary_of cd (db w) c = Some sm"
    and "\<forall>v. db w (chatMessagesKey c) \<noteq> Some (RString v)"
    and "\<forall>v. db w (userChatsKey u) \<noteq> Some (RString v)"
    and "ai model (prompt_of cd (db w) c) temperature = Inr (reply, usage)"
  shows "RunCompletion cd ai u c model temperature now now' w =
           (Inr (\<lparr>Role = AIRole reply, Content = AIContent reply, CreatedAt = now\<rparr>, usage),
            (advance (advance (advance (advance (advance w)))))
              \<lparr>db := saved cd u (retitle sm (AIContent reply) now')
                       ((db w)(chatMessagesKey c \<mapsto>
                          RList (log_of (db w) c @
                            [marshalMessage cd \<lparr>Role = AIRole reply, Content = AIContent reply,
                                                CreatedAt = now\<rparr>])))\<rparr>)"
proof -
  let ?v = "marshalMessage cd \<lparr>Role = AIRole reply, Content = AIContent reply, CreatedAt = now\<rparr>"
  let ?d = "(db w)(chatMessagesKey c \<mapsto> RList (log_of (db w) c @ [?v]))"
  let ?w2 = "advance (advance w)"
  from assms(1) have s: "all_served 2 w" "first_try ?w2" "all_served 2 (advance ?w2)"
    by (simp_all add: eval_nat_numeral all_served_Suc first_try_served)
  have p: "Redis_RPush (chatMessagesKey c) ?v ?w2 = (None, (advance ?w2)\<lparr>db := ?d\<rparr>)"
    using RPush_succeeds [OF s(2), of c ?v] assms(4) by simp
  have t: "touchChat cd u c (AIContent reply) now' ((advance ?w2)\<lparr>db := ?d\<rparr>) =
      (None, (advance (advance (advance ?w2)))\<lparr>db := saved cd u (retitle sm (AIContent reply) now') ?d\<rparr>)"
    using touchChat_succeeds [of "(advance ?w2)\<lparr>db := ?d\<rparr>" cd c sm u "AIContent reply" now']
      s(3) assms(3,5) by (simp add: advance_db)
  show ?thesis
    by (simp add: RunCompletion_owner [OF assms(2) s(1) assms(4)] assms(6) p t)
qed

lemma RPush_log:
  "Redis_RPush (chatMessagesKey c) v w = (e, w') \<Longrightarrow>
     log_of (db w') c = log_of (db w) c
     \<or> log_of (db w') c = log_of (db w) c @ replicate (runs w) v"
  using Redis_Exec_db [of "[RPush (chatMessagesKey c) v]" w]
  by (auto simp: Redis_RPush_def kv_runs_push log_of_def split: if_splits)

lemma RunCompletion_Inr:
  assumes "RunCompletion cd ai u c model temperature now now' w = (Inr (m, usage), w')"
  obtains reply w3 where "db w (chatOwnerKey c) = Some (RString u)"
    and "ai model (prompt_of cd (db w) c) temperature = Inr (reply, usage)"
    and "m = \<lparr>Role = AIRole reply, Content = AIContent reply, CreatedAt = now\<rparr>"
    and "Redis_RPush (chatMessagesKey c) (marshalMessage cd m) (advance (advance w)) = (None, w3)"
    and "touchChat cd u c (AIContent reply) now' w3 = (None, w')"
  using assms
  by (auto simp: RunCompletion_def verifyOwner_eq fetchMessages_eq Let_def prompt_of_def
      split: if_splits option.splits rvalue.splits prod.splits sum.splits)

lemma index_of_saved:
  "index_of (saved cd u s d) u' =
     (if u' = u then ID s # removeAll (ID s) (index_of d u) else index_of d u')"
  by (simp add: saved_def index_of_def)

lemma index_of_push [simp]: "index_of (d(chatMessagesKey c \<mapsto> x)) u = index_of d u"
  by (simp add: index_of_def)

lemma ID_retitle [simp]: "ID (retitle s content now) = ID s"
  by (simp add: retitle_def)

lemma keyed_push_upd: "keyed cd (d(chatMessagesKey c \<mapsto> x)) = keyed cd d"
  by (simp add: keyed_def)

lemma touchChat_index:
  assumes "keyed cd (db w)" and "touchChat cd u c content now w = (None, w')"
  shows "index_of (db w') u' =
           (if u' = u then c # removeAll c (index_of (db w) u) else index_of (db w) u')"
proof -
  from assms(2) obtain sm where sm: "summary_of cd (db w) c = Some sm"
    and save: "saveChatMeta cd u (retitle sm content now) (advance w) = (None, w')"
    by (rule touchChat_None)
  from assms(1) sm have "ID sm = c" by (simp add: keyed_def)
  with saveChatMeta_None(3) [OF save] show ?thesis
    by (simp add: index_of_saved)
qed

lemma NewChat_Inr:
  assumes "NewChat cd u title c now w = (Inr s, w')"
  shows "s = \<lparr>ID = c, Title = (if TrimSpace title = [] then ''New chat'' else title), UpdatedAt = now\<rparr>"
    and "w' = (advance w)\<lparr>db := saved cd u s (db w)\<rparr>"
    and "served w"
proof -
  let ?s = "\<lparr>ID = c, Title = (if TrimSpace title = [] then ''New chat'' else title), UpdatedAt = now\<rparr>"
  from assms have a: "saveChatMeta cd u ?s w = (None, w')" and s: "s = ?s"
    by (auto simp: NewChat_def Let_def split: prod.splits option.splits)
  from s show "s = ?s" .
  from saveChatMeta_None [OF a] s show "w' = (advance w)\<lparr>db := saved cd u s (db w)\<rparr>" "served w"
    by simp_all
qed

lemma AppendMessage_index:
  assumes "keyed cd (db w)" and "AppendMessage cd u c role content now now' w = (Inr m, w')"
  shows "index_of (db w') u' =
           (if u' = u then c # removeAll c (index_of (db w) u) else index_of (db w) u')"
proof -
  from assms(2) obtain w2 where
    push: "Redis_RPush (chatMessagesKey c) (marshalMessage cd m) (advance w) = (None, w2)"
    and touch: "touchChat cd u c content now' w2 = (None, w')"
    by (rule AppendMessage_Inr)
  from RPush_None(2) [OF push] assms(1) have "keyed cd (db w2)" "\<And>x. index_of (db w2) x = index_of (db w) x"
    by (simp_all add: keyed_push_upd)
  with touchChat_index [OF _ touch, of u'] show ?thesis by simp
qed

lemma RunCompletion_index:
  assumes "keyed cd (db w)"
    and "RunCompletion cd ai u c model temperature now now' w = (Inr p, w')"
  shows "index_of (db w') u' =
           (if u' = u then c # removeAll c (index_of (db w) u) else index_of (db w) u')"
proof -
  obtain m usage where p: "p = (m, usage)" by (cases p)
  from assms(2) [unfolded p] show ?thesis
  proof (rule RunCompletion_Inr)
    fix reply w3
    assume push: "Redis_RPush (chatMessagesKey c) (marshalMessage cd m) (advance (advance w)) = (None, w3)"
      and touch: "touchChat cd u c (AIContent reply) now' w3 = (None, w')"
    from RPush_None(2) [OF push] assms(1)
    have "keyed cd (db w3)" "\<And>x. index_of (db w3) x = index_of (db w) x"
      by (simp_all add: keyed_push_upd)
    with touchChat_index [OF _ touch, of u'] show ?thesis by simp
  qed
qed

lemma kv_get_summary:
  "(case kv_get d (chatMetaKey i) of Inl e \<Rightarrow> None | Inr data \<Rightarrow> unmarshalSummary cd data) =
     summary_of cd d i"
  by (simp add: kv_get_def summary_of_def meta_of_def split: option.splits rvalue.splits)

lemma resolveSummaries_step:
  "resolveSummaries cd (i # ids) acc w =
     resolveSummaries cd ids
       (acc @ (case (if served w then summary_of cd (db w) i else None) of
                 None \<Rightarrow> [] | Some s \<Rightarrow> [s]))
       (advance w)"
  by (simp add: Redis_Get_eq kv_get_summary [symmetric] split: sum.splits option.splits)

lemma resolveSummaries_served:
  "all_served (length ids) w \<Longrightarrow>
     fst (resolveSummaries cd ids acc w) = acc @ List.map_filter (summary_of cd (db w)) ids"
proof (induction ids arbitrary: acc w)
  case Nil
  then show ?case by (simp add: List.map_filter_simps)
next
  case (Cons i ids)
  from Cons.prems have s: "served w" "all_served (length ids) (advance w)"
    by (simp_all add: all_served_Suc first_try_served)
  show ?case
    unfolding resolveSummaries_step
    by (simp add: Cons.IH [OF s(2)] s(1) List.map_filter_simps split: option.splits)
qed

lemma resolveSummaries_subseq:
  "\<exists>ys. fst (resolveSummaries cd ids acc w) = acc @ ys
        \<and> subseq ys (List.map_filter (summary_of cd (db w)) ids)"
proof (induction ids arbitrary: acc w)
  case Nil
  then show ?case by (simp add: List.map_filter_simps)
next
  case (Cons i ids)
  let ?x = "case (if served w then summary_of cd (db w) i else None) of None \<Rightarrow> [] | Some s \<Rightarrow> [s]"
  from Cons.IH [of "acc @ ?x" "advance w"]
  obtain ys where ys: "fst (resolveSummaries cd ids (acc @ ?x) (advance w)) = (acc @ ?x) @ ys"
    and sub: "subseq ys (List.map_filter (summary_of cd (db w)) ids)"
    by auto
  have "subseq (?x @ ys) (List.map_filter (summary_of cd (db w)) (i # ids))"
    using sub by (auto simp: List.map_filter_simps split: option.splits)
  with ys show ?case
    unfolding resolveSummaries_step by auto
qed

lemma length_map_filter_le: "length (List.map_filter f xs) \<le> length xs"
  by (simp add: List.map_filter_def)

lemma kv_lrange_index:
  "\<forall>v. d (userChatsKey u) \<noteq> Some (RString v) \<Longrightarrow>
     kv_lrange d (userChatsKey u) 0 19 = Inr (take 20 (index_of d u))"
  by (simp add: kv_lrange_def index_of_def lrange_first20 split: option.splits rvalue.splits)

lemma ListChats_eq:
  assumes "served w" and "\<forall>v. db w (userChatsKey u) \<noteq> Some (RString v)"
  shows "ListChats cd u w =
           (if take 20 (index_of (db w) u) = [] then (Inr [], advance w)
            else (Inr (fst (resolveSummaries cd (take 20 (index_of (db w) u)) [] (advance w))),
                  snd (resolveSummaries cd (take 20 (index_of (db w) u)) [] (advance w))))"
  using assms
  by (simp add: ListChats_def Redis_LRange_eq kv_lrange_index case_prod_beta)

lemma ListChats_Inr:
  assumes "ListChats cd u w = (Inr ss, w')"
  shows "served w" and "\<forall>v. db w (userChatsKey u) \<noteq> Some (RString v)"
  using assms
  by (auto simp: ListChats_def Redis_LRange_eq kv_lrange_def
      split: if_splits sum.splits option.splits rvalue.splits)






lemma unary_decodes: "decodes unaryCodec"
  by (simp add: decodes_def unary_summary_roundtrip)




lemma summarizeTitle_take: "summarizeTitle content = take 32 (TrimSpace content)"
  by (simp add: summarizeTitle_def Let_def)

lemma saved_at [simp]:
  "saved cd u s d (chatMetaKey c) =
     (if c = ID s then Some (RString (marshalSummary cd s)) else d (chatMetaKey c))"
  "saved cd u s d (chatOwnerKey c) = (if c = ID s then Some (RString u) else d (chatOwnerKey c))"
  "saved cd u s d (chatMessagesKey c) = d (chatMessagesKey c)"
  "saved cd u s d (userChatsKey u') =
     (if u' = u then Some (RList (ID s # removeAll (ID s) (index_of d u))) else d (userChatsKey u'))"
  by (simp_all add: saved_def)

lemma summary_of_saved:
  "summary_of cd (saved cd u s d) c =
     (if c = ID s then unmarshalSummary cd (marshalSummary cd s) else summary_of cd d c)"
  by (simp add: summary_of_def meta_of_def)

lemma log_of_saved [simp]: "log_of (saved cd u s d) c = log_of d c"
  by (simp add: log_of_def)

lemma log_of_push_upd:
  "log_of (d(chatMessagesKey c \<mapsto> RList xs)) c' = (if c' = c then xs else log_of d c')"
  by (simp add: log_of_def)





lemma touchChat_db:
  assumes "touchChat cd u c content now w = (None, w')"
  obtains sm where "summary_of cd (db w) c = Some sm"
    and "db w' = saved cd u (retitle sm content now) (db w)"
proof -
  from assms obtain sm where sm: "summary_of cd (db w) c = Some sm"
    and save: "saveChatMeta cd u (retitle sm content now) (advance w) = (None, w')"
    by (rule touchChat_None)
  from saveChatMeta_None(3) [OF save] have "db w' = saved cd u (retitle sm content now) (db w)"
    by simp
  with sm show ?thesis by (rule that)
qed

lemma RunCompletion_db:
  assumes "RunCompletion cd ai u c model temperature now now' w = (Inr (m, usage), w')"
  obtains reply sm where "ai model (prompt_of cd (db w) c) temperature = Inr (reply, usage)"
    and "m = \<lparr>Role = AIRole reply, Content = AIContent reply, CreatedAt = now\<rparr>"
    and "summary_of cd (db w) c = Some sm"
    and "0 < runs (advance (advance w))"
    and "db w' = saved cd u (retitle sm (AIContent reply) now')
                   ((db w)(chatMessagesKey c \<mapsto>
                      RList (log_of (db w) c @
                             replicate (runs (advance (advance w))) (marshalMessage cd m))))"
  using assms
proof (rule RunCompletion_Inr)
  fix reply w3
  assume a: "ai model (prompt_of cd (db w) c) temperature = Inr (reply, usage)"
    and m: "m = \<lparr>Role = AIRole reply, Content = AIContent reply, CreatedAt = now\<rparr>"
    and push: "Redis_RPush (chatMessagesKey c) (marshalMessage cd m) (advance (advance w)) = (None, w3)"
    and touch: "touchChat cd u c (AIContent reply) now' w3 = (None, w')"
  let ?n = "runs (advance (advance w))"
  let ?d = "(db w)(chatMessagesKey c \<mapsto> RList (log_of (db w) c @ replicate ?n (marshalMessage cd m)))"
  from RPush_None(2) [OF push] have d3: "db w3 = ?d" by simp
  from RPush_None(5) [OF push] have n: "0 < ?n" .
  from touch obtain sm where sm: "summary_of cd (db w3) c = Some sm"
    and d: "db w' = saved cd u (retitle sm (AIContent reply) now') (db w3)"
    by (rule touchChat_db)
  from sm d3 have "summary_of cd (db w) c = Some sm" by simp
  from a m this n d [unfolded d3] show ?thesis by (rule that)
qed

lemma RunCompletion_log:
  assumes "db w (chatOwnerKey c) = Some (RString u)"
    and "RunCompletion cd ai u c model temperature now now' w = (r, w')"
  shows "log_of (db w') c = log_of (db w) c
       \<or> (\<exists>reply usage. ai model (prompt_of cd (db w) c) temperature = Inr (reply, usage)
            \<and> 0 < runs (advance (advance w))
            \<and> log_of (db w') c =
                log_of (db w) c @
                replicate (runs (advance (advance w)))
                  (marshalMessage cd \<lparr>Role = AIRole reply, Content = AIContent reply,
                                      CreatedAt = now\<rparr>))"
proof (cases "served w \<and> served (advance w) \<and> (\<forall>v. db w (chatMessagesKey c) \<noteq> Some (RString v))")
  case False
  from RunCompletion_early(2) [OF assms(1) False, of cd ai model temperature now now'] assms(2)
  show ?thesis by simp
next
  case True
  let ?w2 = "advance (advance w)"
  show ?thesis
  proof (cases "ai model (prompt_of cd (db w) c) temperature")
    case (Inl e)
    with True assms have "w' = ?w2"
      by (simp add: RunCompletion_def verifyOwner_eq fetchMessages_eq Let_def prompt_of_def)
    then show ?thesis by simp
  next
    case (Inr p)
    obtain reply usage where p: "p = (reply, usage)" by (cases p)
    let ?m = "\<lparr>Role = AIRole reply, Content = AIContent reply, CreatedAt = now\<rparr>"
    obtain e1 w3 where push: "Redis_RPush (chatMessagesKey c) (marshalMessage cd ?m) ?w2 = (e1, w3)"
      by (cases "Redis_RPush (chatMessagesKey c) (marshalMessage cd ?m) ?w2")
    obtain e2 w4 where touch: "touchChat cd u c (AIContent reply) now' w3 = (e2, w4)"
      by (cases "touchChat cd u c (AIContent reply) now' w3")
    from True assms Inr p push touch have w': "w' = (if e1 = None then w4 else w3)"
      by (auto simp: RunCompletion_def verifyOwner_eq fetchMessages_eq Let_def prompt_of_def
          split: option.splits)
    have l4: "log_of (db w4) c = log_of (db w3) c" using touch by (rule touchChat_log)
    from w' l4 have l: "log_of (db w') c = log_of (db w3) c" by simp
    show ?thesis
    proof (cases "log_of (db w3) c = log_of (db w) c")
      case True
      with l show ?thesis by simp
    next
      case False
      with RPush_log [OF push]
      have r: "log_of (db w3) c = log_of (db w) c @ replicate (runs ?w2) (marshalMessage cd ?m)"
        by simp
      with False have "0 < runs ?w2" by (cases "runs ?w2") simp_all
      with r l Inr p show ?thesis by auto
    qed
  qed
qed

lemma TrimSpace_fine: "TrimSpace ''fine'' = ''fine''"
  by (simp add: TrimSpace_def asciiSpace_def space2_def space3_def)



lemma faultless_first_try: "faultless w \<Longrightarrow> first_try w"
  by (cases "net w") (simp_all add: faultless_def first_try_def)

lemma faultless_advance: "faultless w \<Longrightarrow> faultless (advance w)"
  using first_try_advance [OF faultless_first_try, of w]
  by (cases "net w") (simp_all add: faultless_def)

lemma faultless_db [simp]: "faultless (w\<lparr>db := d\<rparr>) = faultless w"
  by (simp add: faultless_def)

lemma faultless_Nil: "net w = [] \<Longrightarrow> faultless w"
  by (simp add: faultless_def)

lemma push_touch_world:
  assumes "Redis_RPush (chatMessagesKey c) v w = (None, w2)"
    and "touchChat cd u c content now w2 = (None, w')"
  obtains sm where "summary_of cd (db w) c = Some sm"
    and "0 < runs w" and "runs w \<le> 4" and "faultless w \<longrightarrow> runs w = 1"
    and "db w' = saved cd u (retitle sm content now)
                   ((db w)(chatMessagesKey c \<mapsto> RList (log_of (db w) c @ replicate (runs w) v)))"
    and "faultless w \<longrightarrow> faultless w'"
proof -
  let ?d = "(db w)(chatMessagesKey c \<mapsto> RList (log_of (db w) c @ replicate (runs w) v))"
  note w2 = RPush_None(2) [OF assms(1)]
  from w2 have d2: "db w2 = ?d" by simp
  from assms(2) obtain sm where sm: "summary_of cd (db w2) c = Some sm"
    and save: "saveChatMeta cd u (retitle sm content now) (advance w2) = (None, w')"
    by (rule touchChat_None)
  note w' = saveChatMeta_None(3) [OF save]
  from sm d2 have 1: "summary_of cd (db w) c = Some sm" by simp
  have 2: "0 < runs w" using assms(1) by (rule RPush_None(5))
  have 3: "runs w \<le> 4" using runs_bound [of w] by (simp add: maxRetries_def)
  have 4: "faultless w \<longrightarrow> runs w = 1"
    by (simp add: first_try_runs faultless_first_try)
  from w' d2 have 5: "db w' = saved cd u (retitle sm content now) ?d" by simp
  have 6: "faultless w \<longrightarrow> faultless w'"
  proof
    assume "faultless w"
    then have "faultless (advance w)" by (rule faultless_advance)
    then have "faultless w2" unfolding w2 by simp
    then have "faultless (advance (advance w2))" by (intro faultless_advance)
    then show "faultless w'" unfolding w' by simp
  qed
  from 1 2 3 4 5 6 show ?thesis by (rule that)
qed

lemma appendOne_world:
  assumes "appendOne cd ai u c a w = (Inr m, w')"
  obtains sm k content now' where "db w (chatOwnerKey c) = Some (RString u)"
    and "summary_of cd (db w) c = Some sm"
    and "0 < k" and "k \<le> 4" and "faultless w \<longrightarrow> k = 1"
    and "db w' = saved cd u (retitle sm content now')
                   ((db w)(chatMessagesKey c \<mapsto>
                      RList (log_of (db w) c @ replicate k (marshalMessage cd m))))"
    and "faultless w \<longrightarrow> faultless w'"
    and "\<forall>role body t t'. a = ByUser role body t t'
           \<longrightarrow> m = \<lparr>Role = role, Content = body, CreatedAt = t\<rparr>"
proof (cases a)
  case (ByUser role body t t')
  with assms have "AppendMessage cd u c role body t t' w = (Inr m, w')" by simp
  then obtain w2 where v: "verifyOwner u c w = (Inr True, advance w)"
    and m: "m = \<lparr>Role = role, Content = body, CreatedAt = t\<rparr>"
    and push: "Redis_RPush (chatMessagesKey c) (marshalMessage cd m) (advance w) = (None, w2)"
    and touch: "touchChat cd u c body t' w2 = (None, w')"
    by (rule AppendMessage_Inr)
  from verifyOwner_True [OF v] have o: "db w (chatOwnerKey c) = Some (RString u)" by simp
  from push touch obtain sm where sm: "summary_of cd (db (advance w)) c = Some sm"
    and r: "0 < runs (advance w)" "runs (advance w) \<le> 4"
      "faultless (advance w) \<longrightarrow> runs (advance w) = 1"
    and d: "db w' = saved cd u (retitle sm body t')
                   ((db (advance w))(chatMessagesKey c \<mapsto>
                      RList (log_of (db (advance w)) c @
                             replicate (runs (advance w)) (marshalMessage cd m))))"
    and f: "faultless (advance w) \<longrightarrow> faultless w'"
    by (rule push_touch_world)
  show ?thesis
  proof (rule that [of sm "runs (advance w)" body t'])
    show "db w (chatOwnerKey c) = Some (RString u)" by (rule o)
    show "summary_of cd (db w) c = Some sm" using sm by simp
    show "0 < runs (advance w)" "runs (advance w) \<le> 4" by (rule r)+
    show "faultless w \<longrightarrow> runs (advance w) = 1" using r(3) faultless_advance by blast
    show "db w' = saved cd u (retitle sm body t')
                   ((db w)(chatMessagesKey c \<mapsto>
                      RList (log_of (db w) c @
                             replicate (runs (advance w)) (marshalMessage cd m))))"
      using d by simp
    show "faultless w \<longrightarrow> faultless w'" using f faultless_advance by blast
    show "\<forall>role body t t'. a = ByUser role body t t'
           \<longrightarrow> m = \<lparr>Role = role, Content = body, CreatedAt = t\<rparr>"
      using ByUser m by simp
  qed
next
  case (ByBackend model temperature t t')
  with assms obtain usage where
    "RunCompletion cd ai u c model temperature t t' w = (Inr (m, usage), w')"
    by (auto split: prod.splits sum.splits)
  then obtain reply w3 where o: "db w (chatOwnerKey c) = Some (RString u)"
    and "ai model (prompt_of cd (db w) c) temperature = Inr (reply, usage)"
    and "m = \<lparr>Role = AIRole reply, Content = AIContent reply, CreatedAt = t\<rparr>"
    and push: "Redis_RPush (chatMessagesKey c) (marshalMessage cd m) (advance (advance w)) = (None, w3)"
    and touch: "touchChat cd u c (AIContent reply) t' w3 = (None, w')"
    by (rule RunCompletion_Inr)
  let ?w2 = "advance (advance w)"
  from push touch obtain sm where sm: "summary_of cd (db ?w2) c = Some sm"
    and r: "0 < runs ?w2" "runs ?w2 \<le> 4" "faultless ?w2 \<longrightarrow> runs ?w2 = 1"
    and d: "db w' = saved cd u (retitle sm (AIContent reply) t')
                   ((db ?w2)(chatMessagesKey c \<mapsto>
                      RList (log_of (db ?w2) c @ replicate (runs ?w2) (marshalMessage cd m))))"
    and f: "faultless ?w2 \<longrightarrow> faultless w'"
    by (rule push_touch_world)
  have ff: "faultless w \<Longrightarrow> faultless ?w2" by (intro faultless_advance)
  show ?thesis
  proof (rule that [of sm "runs ?w2" "AIContent reply" t'])
    show "db w (chatOwnerKey c) = Some (RString u)" by (rule o)
    show "summary_of cd (db w) c = Some sm" using sm by simp
    show "0 < runs ?w2" "runs ?w2 \<le> 4" by (rule r)+
    show "faultless w \<longrightarrow> runs ?w2 = 1" using r(3) ff by blast
    show "db w' = saved cd u (retitle sm (AIContent reply) t')
                   ((db w)(chatMessagesKey c \<mapsto>
                      RList (log_of (db w) c @ replicate (runs ?w2) (marshalMessage cd m))))"
      using d by simp
    show "faultless w \<longrightarrow> faultless w'" using f ff by blast
    show "\<forall>role body t t'. a = ByUser role body t t'
           \<longrightarrow> m = \<lparr>Role = role, Content = body, CreatedAt = t\<rparr>"
      using ByBackend by simp
  qed
qed

lemma appendOne_log:
  assumes "appendOne cd ai u c a w = (Inr m, w')"
  obtains k where "0 < k" and "k \<le> 4" and "faultless w \<longrightarrow> k = 1"
    and "log_of (db w') c = log_of (db w) c @ replicate k (marshalMessage cd m)"
    and "faultless w \<longrightarrow> faultless w'"
    and "\<forall>role body t t'. a = ByUser role body t t'
           \<longrightarrow> m = \<lparr>Role = role, Content = body, CreatedAt = t\<rparr>"
proof -
  from assms obtain sm k content now' where k: "0 < k" "k \<le> 4" "faultless w \<longrightarrow> k = 1"
    and d: "db w' = saved cd u (retitle sm content now')
                   ((db w)(chatMessagesKey c \<mapsto>
                      RList (log_of (db w) c @ replicate k (marshalMessage cd m))))"
    and f: "faultless w \<longrightarrow> faultless w'"
    and b: "\<forall>role body t t'. a = ByUser role body t t'
           \<longrightarrow> m = \<lparr>Role = role, Content = body, CreatedAt = t\<rparr>"
    by (rule appendOne_world)
  have "log_of (db w') c = log_of (db w) c @ replicate k (marshalMessage cd m)"
    unfolding d by (simp add: log_of_push_upd)
  with k show ?thesis using f b by (rule that)
qed

lemma appendOne_after:
  assumes "appendOne cd ai u c a w = (Inr m, w')"
  shows "db w' (chatOwnerKey c) = Some (RString u)"
    and "decodes cd \<longrightarrow> summary_of cd (db w') c \<noteq> None"
    and "\<forall>v. db w' (chatMessagesKey c) \<noteq> Some (RString v)"
proof -
  from assms obtain sm k content now' where o: "db w (chatOwnerKey c) = Some (RString u)"
    and sm: "summary_of cd (db w) c = Some sm"
    and d: "db w' = saved cd u (retitle sm content now')
                   ((db w)(chatMessagesKey c \<mapsto>
                      RList (log_of (db w) c @ replicate k (marshalMessage cd m))))"
    by (rule appendOne_world)
  show "db w' (chatOwnerKey c) = Some (RString u)"
    unfolding d using o by simp
  show "decodes cd \<longrightarrow> summary_of cd (db w') c \<noteq> None"
    unfolding d using sm by (simp add: summary_of_saved decodes_def)
  show "\<forall>v. db w' (chatMessagesKey c) \<noteq> Some (RString v)"
    unfolding d by simp
qed

lemma appendAll_Cons:
  assumes "appendAll cd ai u c (a # as) w = (Some ms, w')"
  obtains m w1 ms' where "appendOne cd ai u c a w = (Inr m, w1)"
    and "appendAll cd ai u c as w1 = (Some ms', w')" and "ms = m # ms'"
  using assms by (auto split: prod.splits sum.splits option.splits)

lemma appendAll_after:
  assumes "appendAll cd ai u c as w = (Some ms, w')" and "as \<noteq> []"
  shows "db w' (chatOwnerKey c) = Some (RString u)
       \<and> (decodes cd \<longrightarrow> summary_of cd (db w') c \<noteq> None)
       \<and> (\<forall>v. db w' (chatMessagesKey c) \<noteq> Some (RString v))"
  using assms
proof (induction as arbitrary: w ms)
  case Nil
  then show ?case by simp
next
  case (Cons a as)
  from Cons.prems(1) obtain m w1 ms' where one: "appendOne cd ai u c a w = (Inr m, w1)"
    and rest: "appendAll cd ai u c as w1 = (Some ms', w')"
    by (rule appendAll_Cons)
  show ?case
  proof (cases "as = []")
    case True
    with rest have "w' = w1" by simp
    with appendOne_after [OF one] show ?thesis by simp
  next
    case False
    from Cons.IH [OF rest False] show ?thesis .
  qed
qed

lemma appendAll_log:
  assumes "appendAll cd ai u c as w = (Some ms, w')"
  shows "\<exists>ks. length ks = length ms \<and> length ms = length as
            \<and> (\<forall>k\<in>set ks. 0 < k \<and> k \<le> 4)
            \<and> (faultless w \<longrightarrow> (\<forall>k\<in>set ks. k = 1) \<and> faultless w')
            \<and> log_of (db w') c =
                log_of (db w) c @
                concat (map2 (\<lambda>k m. replicate k (marshalMessage cd m)) ks ms)
            \<and> list_all2 (\<lambda>a m. \<forall>role body t t'. a = ByUser role body t t'
                            \<longrightarrow> m = \<lparr>Role = role, Content = body, CreatedAt = t\<rparr>) as ms"
  using assms
proof (induction as arbitrary: w ms)
  case Nil
  then show ?case by simp
next
  case (Cons a as)
  from Cons.prems obtain m w1 ms' where one: "appendOne cd ai u c a w = (Inr m, w1)"
    and rest: "appendAll cd ai u c as w1 = (Some ms', w')" and ms: "ms = m # ms'"
    by (rule appendAll_Cons)
  from one obtain k where k: "0 < k" "k \<le> 4" "faultless w \<longrightarrow> k = 1"
    and l1: "log_of (db w1) c = log_of (db w) c @ replicate k (marshalMessage cd m)"
    and f1: "faultless w \<longrightarrow> faultless w1"
    and b: "\<forall>role body t t'. a = ByUser role body t t'
           \<longrightarrow> m = \<lparr>Role = role, Content = body, CreatedAt = t\<rparr>"
    by (rule appendOne_log)
  from Cons.IH [OF rest] obtain ks where ks: "length ks = length ms'" "length ms' = length as"
    "\<forall>k\<in>set ks. 0 < k \<and> k \<le> 4"
    "faultless w1 \<longrightarrow> (\<forall>k\<in>set ks. k = 1) \<and> faultless w'"
    and l: "log_of (db w') c =
                log_of (db w1) c @
                concat (map2 (\<lambda>k m. replicate k (marshalMessage cd m)) ks ms')"
    and bs: "list_all2 (\<lambda>a m. \<forall>role body t t'. a = ByUser role body t t'
                            \<longrightarrow> m = \<lparr>Role = role, Content = body, CreatedAt = t\<rparr>) as ms'"
    by blast
  have 1: "length (k # ks) = length ms" "length ms = length (a # as)"
    using ks(1,2) ms by simp_all
  have 2: "\<forall>j\<in>set (k # ks). 0 < j \<and> j \<le> 4" using k ks(3) by simp
  have 3: "faultless w \<longrightarrow> (\<forall>j\<in>set (k # ks). j = 1) \<and> faultless w'"
    using k(3) f1 ks(4) by simp
  have 4: "log_of (db w') c =
      log_of (db w) c @ concat (map2 (\<lambda>k m. replicate k (marshalMessage cd m)) (k # ks) ms)"
    unfolding l l1 ms by simp
  have 5: "list_all2 (\<lambda>a m. \<forall>role body t t'. a = ByUser role body t t'
                            \<longrightarrow> m = \<lparr>Role = role, Content = body, CreatedAt = t\<rparr>) (a # as) ms"
    unfolding ms using b bs by simp
  from 1 2 3 4 5 show ?case by blast
qed

lemma map_filter_copies:
  "List.map_filter f (concat (map2 (\<lambda>k m. replicate k (g m)) ks ms)) =
     concat (map2 (\<lambda>k m. case f (g m) of None \<Rightarrow> [] | Some y \<Rightarrow> replicate k y) ks ms)"
proof (induction ks arbitrary: ms)
  case Nil
  show ?case by (simp add: List.map_filter_simps)
next
  case (Cons k ks)
  show ?case
  proof (cases ms)
    case Nil
    then show ?thesis by (simp add: List.map_filter_simps)
  next
    case (Cons m ms')
    then show ?thesis
      by (simp add: map_filter_append map_filter_replicate Cons.IH)
  qed
qed

lemma copies_once:
  "length ks = length ms \<Longrightarrow> \<forall>k\<in>set ks. k = 1 \<Longrightarrow>
     concat (map2 (\<lambda>k m. replicate k (g m)) ks ms) = map g ms"
  by (induction ks ms rule: list_induct2) simp_all

lemma map_filter_all:
  "\<forall>x\<in>set xs. f (g x) = Some x \<Longrightarrow> List.map_filter f (map g xs) = xs"
  by (induction xs) (simp_all add: List.map_filter_simps)

lemma GetChat_succeeds:
  assumes "all_served 3 w" and "db w (chatOwnerKey c) = Some (RString u)"
    and "summary_of cd (db w) c = Some s"
    and "\<forall>v. db w (chatMessagesKey c) \<noteq> Some (RString v)"
  shows "GetChat cd u c w =
           (Inr \<lparr>Summary = s, Messages = List.map_filter (unmarshalMessage cd) (log_of (db w) c)\<rparr>,
            advance (advance (advance w)))"
proof -
  from assms(1) have s: "served w" "served (advance w)" "served (advance (advance w))"
    by (simp_all add: eval_nat_numeral all_served_Suc first_try_served)
  from assms(3) obtain data where d: "db w (chatMetaKey c) = Some (RString data)"
    "unmarshalSummary cd data = Some s"
    by (auto simp: summary_of_def meta_of_def split: option.splits rvalue.splits)
  from s d assms(2,4) show ?thesis
    by (simp add: GetChat_def verifyOwner_eq Redis_Get_eq kv_get_def fetchMessages_eq)
qed

lemma TrimSpace_hi: "TrimSpace ''hi'' = ''hi''"
  by (simp add: TrimSpace_def asciiSpace_def space2_def space3_def)

section \<open>C1: ownership isolation\<close>

lemma served_net: "net w' = net w \<Longrightarrow> served w' = served w"
  by (simp add: served_def round_trip_def split: prod.splits)

lemma not_owner_GetChat:
  assumes "db w (chatOwnerKey c) = None \<or> (\<exists>v. db w (chatOwnerKey c) = Some (RString v) \<and> v \<noteq> u)"
  shows "GetChat cd u c w = (Inl (if served w then NotAuthorized else IOError), advance w)"
  using assms by (auto simp: GetChat_def verifyOwner_eq)

lemma not_owner_AppendMessage:
  assumes "db w (chatOwnerKey c) = None \<or> (\<exists>v. db w (chatOwnerKey c) = Some (RString v) \<and> v \<noteq> u)"
  shows "AppendMessage cd u c role content now now' w =
           (Inl (if served w then NotAuthorized else IOError), advance w)"
  using assms by (auto simp: AppendMessage_def verifyOwner_eq)

text \<open>
  C1. A caller who is not the recorded owner of a chat is refused, and learns nothing about
  whether the chat exists. Let \<open>w\<close> be a world with no ownership record for the chat
  and \<open>w'\<close> one where the record names another user (the comparison is equality of byte
  strings), with the same future of the network. In both, \<open>GetChat\<close> and \<open>AppendMessage\<close>
  fail and change nothing in the store; the error is \<open>NotAuthorized\<close> whenever the read of
  the ownership key is answered (and the I/O error of that read otherwise), so it is the same
  error in \<open>w\<close> and in \<open>w'\<close>.
\<close>

theorem C1_unauthorized:
  assumes "db w (chatOwnerKey c) = None"
    and "db w' (chatOwnerKey c) = Some (RString v)" and "v \<noteq> u"
    and "net w' = net w"
  shows "GetChat cd u c w = (Inl (if served w then NotAuthorized else IOError), advance w)
       \<and> GetChat cd u c w' = (Inl (if served w' then NotAuthorized else IOError), advance w')
       \<and> AppendMessage cd u c role content now now' w =
           (Inl (if served w then NotAuthorized else IOError), advance w)
       \<and> AppendMessage cd u c role content now now' w' =
           (Inl (if served w' then NotAuthorized else IOError), advance w')
       \<and> fst (GetChat cd u c w) = fst (GetChat cd u c w')
       \<and> fst (AppendMessage cd u c role content now now' w) =
           fst (AppendMessage cd u c role content now now' w')
       \<and> db (advance w) = db w \<and> db (advance w') = db w'"
  using assms served_net [OF assms(4)]
  by (simp add: not_owner_GetChat not_owner_AppendMessage)

theorem C1_unauthorized_witness:
  "GetChat unaryCodec ''bob'' ''c1'' (initial []) = (Inl NotAuthorized, initial [])
   \<and> fst (GetChat unaryCodec ''bob'' ''c1''
         (run unaryCodec fineBackend [CallNewChat ''alice'' '''' ''c1'' 1] (initial []))) =
       Inl NotAuthorized
   \<and> fst (AppendMessage unaryCodec ''bob'' ''c1'' ''user'' ''hi'' 2 3 (initial [])) =
       fst (AppendMessage unaryCodec ''bob'' ''c1'' ''user'' ''hi'' 2 3
         (run unaryCodec fineBackend [CallNewChat ''alice'' '''' ''c1'' 1] (initial [])))"
proof -
  let ?w = "initial []"
  let ?w' = "run unaryCodec fineBackend [CallNewChat ''alice'' '''' ''c1'' 1] (initial [])"
  have 1: "db ?w (chatOwnerKey ''c1'') = None" by (simp add: initial_def)
  have 2: "db ?w' (chatOwnerKey ''c1'') = Some (RString ''alice'')"
    unfolding run_alice by simp
  have 3: "''alice'' \<noteq> ''bob''" by simp
  have 4: "net ?w' = net ?w" unfolding run_alice by (simp add: initial_def)
  have n: "net ?w = []" by (simp add: initial_def)
  with 4 have n': "net ?w' = []" by simp
  from C1_unauthorized [OF 1 2 3 4, of unaryCodec "''user''" "''hi''" 2 3]
  show ?thesis
    by (simp only: served_Nil [OF n] served_Nil [OF n'] if_True fst_conv simp_thms)
qed

section \<open>C10: a failed touch leaves the appended message in the log\<close>

text \<open>
  C10. \<open>AppendMessage\<close> makes two writes and does not undo the first when the second
  fails. In every run where the caller is the owner, the append of the message to the log
  succeeds and the touch of the summary then fails with an error \<open>e\<close>, \<open>AppendMessage\<close>
  returns \<open>e\<close> and the log of the chat is the old log followed by the new message, once for
  every attempt of the push that reached the server: at least once, at most four times, and
  exactly once when the push is answered at its first attempt. A later \<open>GetChat\<close> that
  succeeds returns the old messages followed by what the new entry decodes to, as many
  times.
\<close>

theorem C10_append_not_atomic:
  assumes "verifyOwner u c w = (Inr True, w1)"
    and "Redis_RPush (chatMessagesKey c)
           (marshalMessage cd \<lparr>Role = role, Content = content, CreatedAt = now\<rparr>) w1 = (None, w2)"
    and "touchChat cd u c content now' w2 = (Some e, w3)"
  shows "AppendMessage cd u c role content now now' w = (Inl e, w3)
       \<and> 0 < runs w1 \<and> runs w1 \<le> 4
       \<and> log_of (db w3) c =
           log_of (db w) c @
           replicate (runs w1)
             (marshalMessage cd \<lparr>Role = role, Content = content, CreatedAt = now\<rparr>)
       \<and> (first_try w1 \<longrightarrow>
            log_of (db w3) c =
              log_of (db w) c @
              [marshalMessage cd \<lparr>Role = role, Content = content, CreatedAt = now\<rparr>])
       \<and> (\<forall>v w4. GetChat cd u c w3 = (Inr v, w4) \<longrightarrow>
            Messages v =
              List.map_filter (unmarshalMessage cd) (log_of (db w) c) @
              (case unmarshalMessage cd
                      (marshalMessage cd \<lparr>Role = role, Content = content, CreatedAt = now\<rparr>) of
                 None \<Rightarrow> [] | Some m \<Rightarrow> replicate (runs w1) m))"
proof -
  let ?m = "\<lparr>Role = role, Content = content, CreatedAt = now\<rparr>"
  from verifyOwner_True [OF assms(1)]
  have s: "served w" and o: "db w (chatOwnerKey c) = Some (RString u)" and w1: "w1 = advance w"
    by simp_all
  have a: "AppendMessage cd u c role content now now' w = (Inl e, w3)"
    using assms(2,3) by (simp add: AppendMessage_owner [OF o s] w1 [symmetric])
  have n: "0 < runs w1" using assms(2) by (rule RPush_None(5))
  have b: "runs w1 \<le> 4" using runs_bound [of w1] by (simp add: maxRetries_def)
  have "log_of (db w2) c = log_of (db w1) c @ replicate (runs w1) (marshalMessage cd ?m)"
    using assms(2) by (rule RPush_None(3))
  moreover have "log_of (db w3) c = log_of (db w2) c"
    using assms(3) by (rule touchChat_log)
  ultimately have l: "log_of (db w3) c =
      log_of (db w) c @ replicate (runs w1) (marshalMessage cd ?m)"
    by (simp add: w1)
  have l1: "log_of (db w3) c = log_of (db w) c @ [marshalMessage cd ?m]" if "first_try w1"
    using l by (simp add: first_try_runs [OF that])
  have "Messages v = List.map_filter (unmarshalMessage cd) (log_of (db w) c) @
          (case unmarshalMessage cd (marshalMessage cd ?m) of
             None \<Rightarrow> [] | Some m \<Rightarrow> replicate (runs w1) m)"
    if "GetChat cd u c w3 = (Inr v, w4)" for v w4
    using GetChat_Inr(3) [OF that] by (simp add: l map_filter_append map_filter_replicate)
  with a n b l l1 show ?thesis by blast
qed

theorem C10_append_not_atomic_witness:
  "AppendMessage unaryCodec ''alice'' ''c1'' ''user'' ''hi'' 2 3
     (run unaryCodec fineBackend [CallNewChat ''alice'' '''' ''c1'' 1]
        (initial [Served, Served, Served, Served, Dropped, Dropped, Dropped, Dropped])) =
     (Inl IOError,
      \<lparr>db = aliceDb(chatMessagesKey ''c1'' \<mapsto>
               RList [marshalMessage unaryCodec \<lparr>Role = ''user'', Content = ''hi'', CreatedAt = 2\<rparr>]),
       net = []\<rparr>)
   \<and> fst (GetChat unaryCodec ''alice'' ''c1''
         \<lparr>db = aliceDb(chatMessagesKey ''c1'' \<mapsto>
               RList [marshalMessage unaryCodec \<lparr>Role = ''user'', Content = ''hi'', CreatedAt = 2\<rparr>]),
          net = []\<rparr>) =
       Inr \<lparr>Summary = \<lparr>ID = ''c1'', Title = ''New chat'', UpdatedAt = 1\<rparr>,
            Messages = [\<lparr>Role = ''user'', Content = ''hi'', CreatedAt = 2\<rparr>]\<rparr>"
proof -
  let ?m = "\<lparr>Role = ''user'', Content = ''hi'', CreatedAt = 2\<rparr>"
  let ?d = "aliceDb(chatMessagesKey ''c1'' \<mapsto> RList [marshalMessage unaryCodec ?m])"
  let ?w = "\<lparr>db = aliceDb, net = [Served, Served, Served, Dropped, Dropped, Dropped, Dropped]\<rparr>"
  let ?w1 = "\<lparr>db = aliceDb, net = [Served, Served, Dropped, Dropped, Dropped, Dropped]\<rparr>"
  let ?w2 = "\<lparr>db = ?d, net = [Served, Dropped, Dropped, Dropped, Dropped]\<rparr>"
  let ?w3 = "\<lparr>db = ?d, net = []\<rparr>"
  have 1: "verifyOwner ''alice'' ''c1'' ?w = (Inr True, ?w1)"
    by (simp add: verifyOwner_eq trip_Served)
  have 2: "Redis_RPush (chatMessagesKey ''c1'') (marshalMessage unaryCodec ?m) ?w1 = (None, ?w2)"
    by (simp add: Redis_RPush_def Redis_Exec_eq trip_Served kv_runs_push)
  have 3: "touchChat unaryCodec ''alice'' ''c1'' ''hi'' 3 ?w2 = (Some IOError, ?w3)"
    by (simp add: touchChat_def Redis_Get_eq kv_get_def saveChatMeta_exec trip_Served
        trip_Dropped unary_summary_roundtrip)
  have f: "first_try ?w1" by (simp add: first_try_def)
  have g: "GetChat unaryCodec ''alice'' ''c1'' ?w3 =
      (Inr \<lparr>Summary = \<lparr>ID = ''c1'', Title = ''New chat'', UpdatedAt = 1\<rparr>, Messages = [?m]\<rparr>, ?w3)"
    by (simp add: GetChat_def verifyOwner_eq Redis_Get_eq kv_get_def fetchMessages_eq log_of_def
        served_Nil unary_summary_roundtrip unary_message_roundtrip List.map_filter_simps)
  have r: "run unaryCodec fineBackend [CallNewChat ''alice'' '''' ''c1'' 1]
              (initial [Served, Served, Served, Served, Dropped, Dropped, Dropped, Dropped]) = ?w"
    by (rule run_alice(1))
  from C10_append_not_atomic [OF 1 2 3] f g show ?thesis
    unfolding r by simp
qed

section \<open>C9: the role of a message is not checked\<close>

text \<open>
  C9, as stated, fails: the claim is that \<open>AppendMessage\<close> with a role other than \<open>user\<close>
  and \<open>assistant\<close> fails and stores nothing. Called by the owner with the role \<open>system\<close>, it
  succeeds and the message is in the log.
\<close>

theorem C9_role_counterexample:
  "''system'' \<noteq> ''user'' \<and> ''system'' \<noteq> ''assistant''
   \<and> fst (AppendMessage unaryCodec ''alice'' ''c1'' ''system'' ''hi'' 2 3 \<lparr>db = aliceDb, net = []\<rparr>) =
       Inr \<lparr>Role = ''system'', Content = ''hi'', CreatedAt = 2\<rparr>
   \<and> log_of (db (snd (AppendMessage unaryCodec ''alice'' ''c1'' ''system'' ''hi'' 2 3
                       \<lparr>db = aliceDb, net = []\<rparr>))) ''c1'' =
       [marshalMessage unaryCodec \<lparr>Role = ''system'', Content = ''hi'', CreatedAt = 2\<rparr>]"
proof -
  let ?w = "\<lparr>db = aliceDb, net = []\<rparr>"
  have s: "summary_of unaryCodec (db ?w) ''c1'' = Some \<lparr>ID = ''c1'', Title = ''New chat'', UpdatedAt = 1\<rparr>"
    by (simp add: summary_of_def meta_of_def unary_summary_roundtrip)
  have "AppendMessage unaryCodec ''alice'' ''c1'' ''system'' ''hi'' 2 3 ?w =
      (Inr \<lparr>Role = ''system'', Content = ''hi'', CreatedAt = 2\<rparr>,
       (advance (advance (advance (advance ?w))))
         \<lparr>db := saved unaryCodec ''alice''
                  (retitle \<lparr>ID = ''c1'', Title = ''New chat'', UpdatedAt = 1\<rparr> ''hi'' 3)
                  ((db ?w)(chatMessagesKey ''c1'' \<mapsto>
                     RList (log_of (db ?w) ''c1'' @
                       [marshalMessage unaryCodec \<lparr>Role = ''system'', Content = ''hi'', CreatedAt = 2\<rparr>])))\<rparr>)"
    by (rule AppendMessage_succeeds [OF _ _ s]) simp_all
  then show ?thesis
    by (simp add: log_of_def saved_def)
qed

text \<open>
  C9, amended. \<open>AppendMessage\<close> does not look at the role, and the service has no
  validation error. Called by the owner of a chat whose summary decodes, with any role at
  all, when its four round trips are served at the first attempt (and the keys of the log
  and of the index hold lists), it succeeds, returns the message with the role it was given,
  and the log is the old log followed by that message.
\<close>

theorem C9_role_unchecked:
  assumes "all_served 4 w" and "db w (chatOwnerKey c) = Some (RString u)"
    and "summary_of cd (db w) c = Some sm"
    and "\<forall>v. db w (chatMessagesKey c) \<noteq> Some (RString v)"
    and "\<forall>v. db w (userChatsKey u) \<noteq> Some (RString v)"
  shows "fst (AppendMessage cd u c role content now now' w) =
           Inr \<lparr>Role = role, Content = content, CreatedAt = now\<rparr>
       \<and> log_of (db (snd (AppendMessage cd u c role content now now' w))) c =
           log_of (db w) c @ [marshalMessage cd \<lparr>Role = role, Content = content, CreatedAt = now\<rparr>]"
  by (simp add: AppendMessage_succeeds [OF assms] log_of_def saved_def)

theorem C9_role_unchecked_witness:
  "fst (AppendMessage unaryCodec ''alice'' ''c1'' ''tool'' ''hi'' 2 3 \<lparr>db = aliceDb, net = []\<rparr>) =
     Inr \<lparr>Role = ''tool'', Content = ''hi'', CreatedAt = 2\<rparr>
   \<and> log_of (db (snd (AppendMessage unaryCodec ''alice'' ''c1'' ''tool'' ''hi'' 2 3
                       \<lparr>db = aliceDb, net = []\<rparr>))) ''c1'' =
       [marshalMessage unaryCodec \<lparr>Role = ''tool'', Content = ''hi'', CreatedAt = 2\<rparr>]"
proof -
  let ?w = "\<lparr>db = aliceDb, net = []\<rparr>"
  have 1: "all_served 4 ?w" by simp
  have 2: "db ?w (chatOwnerKey ''c1'') = Some (RString ''alice'')" by simp
  have 3: "summary_of unaryCodec (db ?w) ''c1'' = Some \<lparr>ID = ''c1'', Title = ''New chat'', UpdatedAt = 1\<rparr>"
    by (simp add: summary_of_def meta_of_def unary_summary_roundtrip)
  have 4: "\<forall>v. db ?w (chatMessagesKey ''c1'') \<noteq> Some (RString v)" by simp
  have 5: "\<forall>v. db ?w (userChatsKey ''alice'') \<noteq> Some (RString v)" by simp
  from C9_role_unchecked [OF 1 2 3 4 5, of "''tool''" "''hi''" 2 3] show ?thesis
    by (simp add: log_of_def)
qed

section \<open>C2: a chat is created in one transaction\<close>

lemma NewChat_cases:
  assumes "\<forall>v. db w (userChatsKey u) \<noteq> Some (RString v)"
    and "NewChat cd u title c now w = (r, w')"
  shows "(r = Inl IOError \<and> db w' = db w)
       \<or> ((r = Inr \<lparr>ID = c, Title = (if TrimSpace title = [] then ''New chat'' else title),
                     UpdatedAt = now\<rparr> \<or> r = Inl IOError)
          \<and> db w' = saved cd u \<lparr>ID = c, Title = (if TrimSpace title = [] then ''New chat'' else title),
                                   UpdatedAt = now\<rparr> (db w))"
  using assms served_runs [of w] unfolding NewChat_def saveChatMeta_exec kv_exec_save
  by (auto simp: Let_def split: if_splits)

text \<open>
  C2. In every world that the service can reach from the empty store, whatever the network
  does, \<open>NewChat\<close> either changes nothing in the store (and returns an error), or makes
  all three writes: the summary under the metadata key, the user under the ownership key,
  and the identifier at the front of the user's index with any earlier occurrence removed.
  It returns the summary only in the second case. Before and after, a chat has a metadata
  record exactly when it has an ownership record.
\<close>

theorem C2_new_chat_atomic:
  assumes "w = run cd ai calls (initial ns)"
    and "NewChat cd u title c now w = (r, w')"
  shows "((r = Inl IOError \<and> db w' = db w)
          \<or> ((r = Inr \<lparr>ID = c, Title = (if TrimSpace title = [] then ''New chat'' else title),
                        UpdatedAt = now\<rparr> \<or> r = Inl IOError)
             \<and> meta_of (db w') c =
                 Some (marshalSummary cd
                   \<lparr>ID = c, Title = (if TrimSpace title = [] then ''New chat'' else title),
                    UpdatedAt = now\<rparr>)
             \<and> owner_of (db w') c = Some u
             \<and> index_of (db w') u = c # removeAll c (index_of (db w) u)
             \<and> db w' = saved cd u \<lparr>ID = c, Title = (if TrimSpace title = [] then ''New chat'' else title),
                                      UpdatedAt = now\<rparr> (db w)))
       \<and> paired (db w) \<and> paired (db w')"
proof -
  let ?s = "\<lparr>ID = c, Title = (if TrimSpace title = [] then ''New chat'' else title), UpdatedAt = now\<rparr>"
  have e: "evolves cd (db (initial ns)) (db w)"
    unfolding assms(1) by (rule run_evolves) (rule evolves.same)
  with assms(2) have e': "evolves cd (db (initial ns)) (db w')"
    by (rule NewChat_evolves)
  have t: "typed (db w)" using e initial_invariants(1) by (rule typed_evolves)
  have p: "paired (db w)" "paired (db w')"
    using e e' initial_invariants(2) by (auto intro: paired_evolves)
  have i: "\<forall>v. db w (userChatsKey u) \<noteq> Some (RString v)"
    using t by (simp add: typed_index)
  have m: "meta_of (saved cd u ?s (db w)) c = Some (marshalSummary cd ?s)"
    "owner_of (saved cd u ?s (db w)) c = Some u"
    "index_of (saved cd u ?s (db w)) u = c # removeAll c (index_of (db w) u)"
    by (simp_all add: saved_def meta_of_def owner_of_def index_of_def)
  from NewChat_cases [OF i assms(2)] m p show ?thesis by auto
qed

theorem C2_new_chat_atomic_witness:
  "fst (NewChat unaryCodec ''bob'' ''plans'' ''c2'' 2
         (run unaryCodec fineBackend [CallNewChat ''alice'' '''' ''c1'' 1] (initial []))) =
     Inr \<lparr>ID = ''c2'', Title = ''plans'', UpdatedAt = 2\<rparr>
   \<and> owner_of (db (snd (NewChat unaryCodec ''bob'' ''plans'' ''c2'' 2
         (run unaryCodec fineBackend [CallNewChat ''alice'' '''' ''c1'' 1] (initial []))))) ''c2'' =
       Some ''bob''
   \<and> index_of (db (snd (NewChat unaryCodec ''bob'' ''plans'' ''c2'' 2
         (run unaryCodec fineBackend [CallNewChat ''alice'' '''' ''c1'' 1] (initial []))))) ''bob'' =
       [''c2'']
   \<and> paired (db (snd (NewChat unaryCodec ''bob'' ''plans'' ''c2'' 2
         (run unaryCodec fineBackend [CallNewChat ''alice'' '''' ''c1'' 1] (initial [])))))
   \<and> fst (NewChat unaryCodec ''bob'' ''plans'' ''c2'' 2
         (run unaryCodec fineBackend [CallNewChat ''alice'' '''' ''c1'' 1]
            (initial [Served, Dropped, Dropped, Dropped, Dropped]))) =
       Inl IOError
   \<and> db (snd (NewChat unaryCodec ''bob'' ''plans'' ''c2'' 2
         (run unaryCodec fineBackend [CallNewChat ''alice'' '''' ''c1'' 1]
            (initial [Served, Dropped, Dropped, Dropped, Dropped])))) =
       aliceDb"
proof -
  let ?calls = "[CallNewChat ''alice'' '''' ''c1'' 1]"
  let ?s = "\<lparr>ID = ''c2'', Title = ''plans'', UpdatedAt = 2\<rparr>"
  let ?w = "run unaryCodec fineBackend ?calls (initial [])"
  let ?v = "run unaryCodec fineBackend ?calls (initial [Served, Dropped, Dropped, Dropped, Dropped])"
  let ?N = "NewChat unaryCodec ''bob'' ''plans'' ''c2'' 2 ?w"
  let ?M = "NewChat unaryCodec ''bob'' ''plans'' ''c2'' 2 ?v"
  have w: "?w = \<lparr>db = aliceDb, net = []\<rparr>" by (rule run_alice(2))
  have v: "?v = \<lparr>db = aliceDb, net = [Dropped, Dropped, Dropped, Dropped]\<rparr>"
    by (rule run_alice(1))
  have tr: "TrimSpace ''plans'' = ''plans''"
    by (simp add: TrimSpace_def asciiSpace_def space2_def space3_def)
  have a: "fst ?N = Inr ?s"
    unfolding w NewChat_def saveChatMeta_exec kv_exec_save
    by (simp add: tr Let_def served_Nil aliceDb_def)
  have b: "fst ?M = Inl IOError" "db (snd ?M) = aliceDb"
    unfolding v NewChat_def saveChatMeta_exec kv_exec_save
    by (simp_all add: tr Let_def trip_Dropped)
  have i: "index_of (db ?w) ''bob'' = []"
    unfolding w by (simp add: index_of_def aliceDb_def)
  note n = C2_new_chat_atomic [OF refl surjective_pairing,
      of unaryCodec "''bob''" "''plans''" "''c2''" 2 fineBackend ?calls "[]"]
  from n a have "owner_of (db (snd ?N)) ''c2'' = Some ''bob''"
    and "index_of (db (snd ?N)) ''bob'' = ''c2'' # removeAll ''c2'' (index_of (db ?w) ''bob'')"
    and "paired (db (snd ?N))"
    by (auto simp del: run.simps simp add: tr)
  with a b i show ?thesis by (simp del: run.simps)
qed

section \<open>C6: the index of a user\<close>

lemma run_alice2:
  "run unaryCodec ai [CallNewChat ''alice'' '''' ''c1'' 1, CallNewChat ''alice'' '''' ''c2'' 2] (initial []) =
     \<lparr>db = saved unaryCodec ''alice'' \<lparr>ID = ''c2'', Title = ''New chat'', UpdatedAt = 2\<rparr> aliceDb,
      net = []\<rparr>"
proof -
  have "run unaryCodec ai [CallNewChat ''alice'' '''' ''c1'' 1, CallNewChat ''alice'' '''' ''c2'' 2] (initial []) =
      perform unaryCodec ai (CallNewChat ''alice'' '''' ''c2'' 2)
        (run unaryCodec ai [CallNewChat ''alice'' '''' ''c1'' 1] (initial []))"
    by simp
  also have "\<dots> = \<lparr>db = saved unaryCodec ''alice'' \<lparr>ID = ''c2'', Title = ''New chat'', UpdatedAt = 2\<rparr> aliceDb,
      net = []\<rparr>"
    unfolding run_alice(2)
    by (simp add: NewChat_def saveChatMeta_exec kv_exec_save Let_def served_Nil TrimSpace_def)
  finally show ?thesis .
qed

text \<open>
  C6. Let the codec give back the identifier of a summary it has written. In every world
  that the service can reach from the empty store, by any calls of any users and whatever
  the network does, the index of a user lists no chat twice; and a \<open>NewChat\<close>, an
  \<open>AppendMessage\<close> or a \<open>RunCompletion\<close> of the user that succeeds for the chat \<open>c\<close> leaves
  the index as \<open>c\<close> followed by the old index without \<open>c\<close>: the chat is at the front, moved,
  not listed again.
\<close>

theorem C6_index_recency:
  assumes "id_stable cd" and "w = run cd ai calls (initial ns)"
  shows "distinct (index_of (db w) u)
       \<and> (\<forall>title c now s w'. NewChat cd u title c now w = (Inr s, w') \<longrightarrow>
            index_of (db w') u = c # removeAll c (index_of (db w) u)
            \<and> distinct (index_of (db w') u))
       \<and> (\<forall>c role content now now' m w'.
            AppendMessage cd u c role content now now' w = (Inr m, w') \<longrightarrow>
            index_of (db w') u = c # removeAll c (index_of (db w) u)
            \<and> distinct (index_of (db w') u))
       \<and> (\<forall>c model temperature now now' p w'.
            RunCompletion cd ai u c model temperature now now' w = (Inr p, w') \<longrightarrow>
            index_of (db w') u = c # removeAll c (index_of (db w) u)
            \<and> distinct (index_of (db w') u))"
proof -
  note inv = reachable_invariants [OF assms(2)]
  from inv(3) have d: "distinct (index_of (db w) u)" by (simp add: duplicate_free_def)
  then have d': "distinct (c # removeAll c (index_of (db w) u))" for c
    by (simp add: distinct_removeAll)
  from inv(4) assms(1) have k: "keyed cd (db w)" by simp
  have n: "index_of (db w') u = c # removeAll c (index_of (db w) u)"
    if "NewChat cd u title c now w = (Inr s, w')" for title c now s w'
    using NewChat_Inr(1,2) [OF that] by (simp add: index_of_saved)
  have a: "index_of (db w') u = c # removeAll c (index_of (db w) u)"
    if "AppendMessage cd u c role content now now' w = (Inr m, w')" for c role content now now' m w'
    using AppendMessage_index [OF k that, of u] by simp
  have r: "index_of (db w') u = c # removeAll c (index_of (db w) u)"
    if "RunCompletion cd ai u c model temperature now now' w = (Inr p, w')"
    for c model temperature now now' p w'
    using RunCompletion_index [OF k that, of u] by simp
  from d d' n a r show ?thesis by simp
qed

theorem C6_index_recency_witness:
  "index_of (db (run unaryCodec fineBackend
       [CallNewChat ''alice'' '''' ''c1'' 1, CallNewChat ''alice'' '''' ''c2'' 2] (initial []))) ''alice'' =
     [''c2'', ''c1'']
   \<and> index_of (db (snd (AppendMessage unaryCodec ''alice'' ''c1'' ''user'' ''hi'' 3 4
       (run unaryCodec fineBackend
          [CallNewChat ''alice'' '''' ''c1'' 1, CallNewChat ''alice'' '''' ''c2'' 2] (initial []))))) ''alice'' =
     [''c1'', ''c2'']"
proof -
  let ?calls = "[CallNewChat ''alice'' '''' ''c1'' 1, CallNewChat ''alice'' '''' ''c2'' 2]"
  let ?w = "run unaryCodec fineBackend ?calls (initial [])"
  let ?d = "saved unaryCodec ''alice'' \<lparr>ID = ''c2'', Title = ''New chat'', UpdatedAt = 2\<rparr> aliceDb"
  let ?A = "AppendMessage unaryCodec ''alice'' ''c1'' ''user'' ''hi'' 3 4 ?w"
  have w: "?w = \<lparr>db = ?d, net = []\<rparr>" by (rule run_alice2)
  have i: "index_of (db ?w) ''alice'' = [''c2'', ''c1'']"
    unfolding w by (simp add: index_of_saved index_of_cases(2) [of aliceDb "''alice''" "[''c1'']"])
  have 1: "all_served 4 ?w" unfolding w by simp
  have 2: "db ?w (chatOwnerKey ''c1'') = Some (RString ''alice'')"
    unfolding w by (simp add: saved_def)
  have 3: "summary_of unaryCodec (db ?w) ''c1'' = Some \<lparr>ID = ''c1'', Title = ''New chat'', UpdatedAt = 1\<rparr>"
    unfolding w by (simp add: saved_def summary_of_def meta_of_def unary_summary_roundtrip)
  have 4: "\<forall>v. db ?w (chatMessagesKey ''c1'') \<noteq> Some (RString v)"
    unfolding w by (simp add: saved_def)
  have 5: "\<forall>v. db ?w (userChatsKey ''alice'') \<noteq> Some (RString v)"
    unfolding w by (simp add: saved_def)
  have s: "?A = (Inr \<lparr>Role = ''user'', Content = ''hi'', CreatedAt = 3\<rparr>, snd ?A)"
    using AppendMessage_succeeds [OF 1 2 3 4 5, of "''user''" "''hi''" 3 4] by (simp del: run.simps)
  note t = C6_index_recency [OF unary_id_stable refl, of fineBackend ?calls "[]" "''alice''"]
  from t [THEN conjunct2, THEN conjunct2, THEN conjunct1, rule_format, OF s]
  have "index_of (db (snd ?A)) ''alice'' = ''c1'' # removeAll ''c1'' (index_of (db ?w) ''alice'')"
    by (rule conjunct1)
  with i show ?thesis by (simp del: run.simps)
qed

section \<open>C7: listing the chats of a user\<close>

text \<open>
  C7. \<open>ListChats\<close> reads the first 20 identifiers of the user's index and looks each one
  up. When that first read is answered (and the index key holds a list) the listing
  succeeds, whatever the records are. What it returns has at most 20 summaries and is, in
  the order of the index, a selection of the summaries that those identifiers resolve to:
  an identifier whose record is missing, does not decode, or cannot be read is left out.
  When every read is answered at the first attempt it is exactly the summaries that resolve.
  The store is not changed.
\<close>

theorem C7_list_chats:
  "(served w \<and> (\<forall>v. db w (userChatsKey u) \<noteq> Some (RString v)) \<longrightarrow>
      (\<exists>ss. fst (ListChats cd u w) = Inr ss))
   \<and> (\<forall>ss w'. ListChats cd u w = (Inr ss, w') \<longrightarrow>
        length ss \<le> 20
        \<and> subseq ss (List.map_filter (summary_of cd (db w)) (take 20 (index_of (db w) u)))
        \<and> (all_served 21 w \<longrightarrow>
             ss = List.map_filter (summary_of cd (db w)) (take 20 (index_of (db w) u)))
        \<and> db w' = db w)"
proof -
  let ?ids = "take 20 (index_of (db w) u)"
  let ?all = "List.map_filter (summary_of cd (db w)) ?ids"
  have 1: "\<exists>ss. fst (ListChats cd u w) = Inr ss"
    if "served w" "\<forall>v. db w (userChatsKey u) \<noteq> Some (RString v)"
    by (simp add: ListChats_eq [OF that])
  have 2: "length ss \<le> 20 \<and> subseq ss ?all \<and> (all_served 21 w \<longrightarrow> ss = ?all) \<and> db w' = db w"
    if l: "ListChats cd u w = (Inr ss, w')" for ss w'
  proof -
    note eq = ListChats_eq [OF ListChats_Inr [OF l], of cd]
    from resolveSummaries_subseq [of cd ?ids "[]" "advance w"]
    have s: "subseq (fst (resolveSummaries cd ?ids [] (advance w))) ?all" by auto
    have ss: "ss = (if ?ids = [] then [] else fst (resolveSummaries cd ?ids [] (advance w)))"
      using l eq by (simp split: if_splits)
    have sub: "subseq ss ?all"
      using s ss by (simp add: List.map_filter_simps)
    then have "length ss \<le> length ?all" by (rule list_emb_length)
    also have "\<dots> \<le> length ?ids" by (rule length_map_filter_le)
    also have "\<dots> \<le> 20" by simp
    finally have len: "length ss \<le> 20" .
    have ex: "ss = ?all" if a: "all_served 21 w"
    proof -
      from a have "all_served 20 (advance w)"
        by (simp add: eval_nat_numeral all_served_Suc first_try_served)
      then have "all_served (length ?ids) (advance w)"
        by (simp add: all_served_def list_all_iff) (meson in_set_takeD set_take_subset_set_take
            subsetD min.cobounded2)
      from resolveSummaries_served [OF this, of cd "[]"] ss show ?thesis
        by (simp add: List.map_filter_simps)
    qed
    have "db w' = db w" using ListChats_db [of cd u w] l by simp
    with len sub ex show ?thesis by simp
  qed
  from 1 2 show ?thesis by blast
qed

theorem C7_list_chats_witness:
  "fst (ListChats unaryCodec ''alice''
          \<lparr>db = saved unaryCodec ''alice'' \<lparr>ID = ''c2'', Title = ''New chat'', UpdatedAt = 2\<rparr> aliceDb,
           net = []\<rparr>) =
     Inr [\<lparr>ID = ''c2'', Title = ''New chat'', UpdatedAt = 2\<rparr>,
          \<lparr>ID = ''c1'', Title = ''New chat'', UpdatedAt = 1\<rparr>]
   \<and> fst (ListChats unaryCodec ''alice''
          \<lparr>db = saved unaryCodec ''alice'' \<lparr>ID = ''c2'', Title = ''New chat'', UpdatedAt = 2\<rparr> aliceDb,
           net = [Served, Dropped, Dropped, Dropped, Dropped]\<rparr>) =
     Inr [\<lparr>ID = ''c1'', Title = ''New chat'', UpdatedAt = 1\<rparr>]"
proof -
  let ?s2 = "\<lparr>ID = ''c2'', Title = ''New chat'', UpdatedAt = 2\<rparr>"
  let ?s1 = "\<lparr>ID = ''c1'', Title = ''New chat'', UpdatedAt = 1\<rparr>"
  let ?d = "saved unaryCodec ''alice'' ?s2 aliceDb"
  let ?w = "\<lparr>db = ?d, net = []\<rparr>"
  let ?v = "\<lparr>db = ?d, net = [Served, Dropped, Dropped, Dropped, Dropped]\<rparr>"
  have i: "index_of ?d ''alice'' = [''c2'', ''c1'']"
    by (simp add: index_of_saved index_of_cases(2) [of aliceDb "''alice''" "[''c1'']"])
  have m: "summary_of unaryCodec ?d ''c2'' = Some ?s2" "summary_of unaryCodec ?d ''c1'' = Some ?s1"
    by (simp_all add: saved_def summary_of_def meta_of_def unary_summary_roundtrip)
  have t: "\<forall>v. ?d (userChatsKey ''alice'') \<noteq> Some (RString v)"
    by (simp add: saved_def)
  have sw: "served ?w" "all_served 21 ?w" by (simp_all add: served_Nil)
  note c = C7_list_chats [of ?w "''alice''" unaryCodec]
  from c sw(1) t obtain ss where ss: "fst (ListChats unaryCodec ''alice'' ?w) = Inr ss"
    by auto
  then have "ListChats unaryCodec ''alice'' ?w = (Inr ss, snd (ListChats unaryCodec ''alice'' ?w))"
    by (metis prod.collapse)
  with c sw(2) have "ss = List.map_filter (summary_of unaryCodec (db ?w)) (take 20 (index_of (db ?w) ''alice''))"
    by blast
  with i m have 1: "ss = [?s2, ?s1]" by (simp add: List.map_filter_simps)
  have sv: "served ?v" "served (advance ?v) = False" "served (advance (advance ?v))"
    by (simp_all add: trip_Served trip_Dropped served_Nil)
  have dv: "db ?v = ?d" by simp
  have tv: "\<forall>v. db ?v (userChatsKey ''alice'') \<noteq> Some (RString v)" using t by simp
  have iv: "take 20 (index_of (db ?v) ''alice'') = [''c2'', ''c1'']" using i by simp
  have r: "fst (resolveSummaries unaryCodec [''c2'', ''c1''] [] (advance ?v)) = [?s1]"
    unfolding resolveSummaries_step by (simp add: sv m)
  have 2: "fst (ListChats unaryCodec ''alice'' ?v) = Inr [?s1]"
    unfolding ListChats_eq [OF sv(1) tv] iv using r by simp
  from ss 1 2 show ?thesis by simp
qed

section \<open>C5: the chat a user lands in\<close>




section \<open>C8: what a completion writes\<close>

text \<open>
  C8, as stated, fails: the claim is that a completion that succeeds appends exactly one
  message. \<open>alice\<close> has the chat \<open>c1\<close>, with an empty log. The two reads of \<open>RunCompletion\<close>
  are answered, the backend replies, the answer to the push of the reply is lost, and the
  client sends the push again: the call succeeds and the reply is in the log twice.
\<close>

theorem C8_reply_twice_counterexample:
  "log_of (db (run unaryCodec fineBackend [CallNewChat ''alice'' '''' ''c1'' 1]
                 (initial [Served, Served, Served, ReplyLost, Served]))) ''c1'' = []
   \<and> fst (RunCompletion unaryCodec fineBackend ''alice'' ''c1'' ''model-x'' 0.5 4 5
            (run unaryCodec fineBackend [CallNewChat ''alice'' '''' ''c1'' 1]
               (initial [Served, Served, Served, ReplyLost, Served]))) =
       Inr (\<lparr>Role = ''assistant'', Content = ''fine'', CreatedAt = 4\<rparr>,
            \<lparr>PromptTokens = 0, CompletionTokens = 1, TotalTokens = 1\<rparr>)
   \<and> log_of (db (snd (RunCompletion unaryCodec fineBackend ''alice'' ''c1'' ''model-x'' 0.5 4 5
            (run unaryCodec fineBackend [CallNewChat ''alice'' '''' ''c1'' 1]
               (initial [Served, Served, Served, ReplyLost, Served]))))) ''c1'' =
       [marshalMessage unaryCodec \<lparr>Role = ''assistant'', Content = ''fine'', CreatedAt = 4\<rparr>,
        marshalMessage unaryCodec \<lparr>Role = ''assistant'', Content = ''fine'', CreatedAt = 4\<rparr>]"
proof -
  let ?w = "\<lparr>db = aliceDb, net = [Served, Served, ReplyLost, Served]\<rparr>"
  let ?w2 = "\<lparr>db = aliceDb, net = [ReplyLost, Served]\<rparr>"
  let ?m = "\<lparr>Role = ''assistant'', Content = ''fine'', CreatedAt = 4\<rparr>"
  let ?v = "marshalMessage unaryCodec ?m"
  let ?d = "aliceDb(chatMessagesKey ''c1'' \<mapsto> RList [?v, ?v])"
  let ?w3 = "\<lparr>db = ?d, net = []\<rparr>"
  let ?sm = "\<lparr>ID = ''c1'', Title = ''New chat'', UpdatedAt = 1\<rparr>"
  let ?reply = "\<lparr>AIRole = ''assistant'', AIContent = ''fine''\<rparr>"
  let ?usage = "\<lparr>PromptTokens = 0, CompletionTokens = 1, TotalTokens = 1\<rparr>"
  have r: "run unaryCodec fineBackend [CallNewChat ''alice'' '''' ''c1'' 1]
             (initial [Served, Served, Served, ReplyLost, Served]) = ?w"
    by (rule run_alice(1))
  have o: "db ?w (chatOwnerKey ''c1'') = Some (RString ''alice'')" by simp
  have s2: "all_served 2 ?w" by (simp add: all_served_def)
  have k: "\<forall>v. db ?w (chatMessagesKey ''c1'') \<noteq> Some (RString v)" by simp
  have a: "fineBackend ''model-x'' (prompt_of unaryCodec (db ?w) ''c1'') 0.5 = Inr (?reply, ?usage)"
    by (simp add: fineBackend_def prompt_of_def log_of_def List.map_filter_simps)
  have adv: "advance (advance ?w) = ?w2" by (simp add: trip_Served)
  have p: "Redis_RPush (chatMessagesKey ''c1'') ?v ?w2 = (None, ?w3)"
    using RPush_served [of ?w2 "''c1''" ?v]
    by (simp add: trip_ReplyLost log_of_def numeral_2_eq_2)
  have s: "summary_of unaryCodec (db ?w3) ''c1'' = Some ?sm"
    by (simp add: summary_of_def meta_of_def unary_summary_roundtrip)
  have t: "touchChat unaryCodec ''alice'' ''c1'' ''fine'' 5 ?w3 =
      (None, \<lparr>db = saved unaryCodec ''alice'' (retitle ?sm ''fine'' 5) ?d, net = []\<rparr>)"
    using touchChat_succeeds [of ?w3 unaryCodec "''c1''" ?sm "''alice''" "''fine''" 5] s
    by (simp add: served_Nil)
  have 1: "log_of (db ?w) ''c1'' = []" by (simp add: log_of_def)
  have e: "RunCompletion unaryCodec fineBackend ''alice'' ''c1'' ''model-x'' 0.5 4 5 ?w =
      (Inr (?m, ?usage), \<lparr>db = saved unaryCodec ''alice'' (retitle ?sm ''fine'' 5) ?d, net = []\<rparr>)"
    unfolding RunCompletion_owner [OF o s2 k] a adv by (simp add: p t)
  show ?thesis
    unfolding r e using 1 by (simp add: log_of_push_upd)
qed

text \<open>
  C8, amended. \<open>RunCompletion\<close>, called by the owner of the chat, sends the decoded log to
  the backend and appends nothing of the caller's. If the backend fails, the call fails and
  the whole store (the log and the summary with it) is as before. If the call succeeds, the
  backend has answered, the returned message has the role and the content of the reply, and
  the store is the old store with two changes. The log is the old log followed by that
  message, once for every attempt of the push that reached the server: at least once, at
  most four times, exactly once when the push is answered at its first attempt. And the
  summary has been touched with the content of the reply: the stored summary \<open>sm\<close> of the
  chat is stored again, with the time of the touch and, if its title was \<open>New chat\<close> and the
  content of the reply is not empty after trimming, with the title cut from that content;
  its identifier is owned by the caller and at the front of the caller's index, where it
  occurs once. In every case the log is the old log, or the old log followed by copies of
  the reply. When the backend answers, the five round trips are served at once and the
  summary decodes, the call does succeed, with one copy of the reply.
\<close>

theorem C8_run_completion:
  assumes "db w (chatOwnerKey c) = Some (RString u)"
    and "RunCompletion cd ai u c model temperature now now' w = (r, w')"
  shows "(\<forall>e. ai model (prompt_of cd (db w) c) temperature = Inl e \<longrightarrow> isl r \<and> db w' = db w)
       \<and> (\<forall>m usage. r = Inr (m, usage) \<longrightarrow>
            (\<exists>reply sm n.
               ai model (prompt_of cd (db w) c) temperature = Inr (reply, usage)
               \<and> m = \<lparr>Role = AIRole reply, Content = AIContent reply, CreatedAt = now\<rparr>
               \<and> summary_of cd (db w) c = Some sm
               \<and> 0 < n \<and> n \<le> 4 \<and> (first_try (advance (advance w)) \<longrightarrow> n = 1)
               \<and> db w' =
                   saved cd u
                     (sm\<lparr>Title := (if Title sm = ''New chat'' \<and> TrimSpace (AIContent reply) \<noteq> []
                                    then summarizeTitle (AIContent reply) else Title sm),
                         UpdatedAt := now'\<rparr>)
                     ((db w)(chatMessagesKey c \<mapsto>
                        RList (log_of (db w) c @ replicate n (marshalMessage cd m))))
               \<and> log_of (db w') c = log_of (db w) c @ replicate n (marshalMessage cd m)
               \<and> meta_of (db w') (ID sm) =
                   Some (marshalSummary cd
                     (sm\<lparr>Title := (if Title sm = ''New chat'' \<and> TrimSpace (AIContent reply) \<noteq> []
                                    then summarizeTitle (AIContent reply) else Title sm),
                         UpdatedAt := now'\<rparr>))
               \<and> owner_of (db w') (ID sm) = Some u
               \<and> index_of (db w') u = ID sm # removeAll (ID sm) (index_of (db w) u)))
       \<and> (log_of (db w') c = log_of (db w) c
            \<or> (\<exists>reply usage n. ai model (prompt_of cd (db w) c) temperature = Inr (reply, usage)
                 \<and> 0 < n \<and> n \<le> 4
                 \<and> log_of (db w') c =
                     log_of (db w) c @
                     replicate n (marshalMessage cd \<lparr>Role = AIRole reply, Content = AIContent reply,
                                                     CreatedAt = now\<rparr>)))
       \<and> (\<forall>reply usage sm.
            ai model (prompt_of cd (db w) c) temperature = Inr (reply, usage)
            \<and> all_served 5 w \<and> summary_of cd (db w) c = Some sm
            \<and> (\<forall>v. db w (chatMessagesKey c) \<noteq> Some (RString v))
            \<and> (\<forall>v. db w (userChatsKey u) \<noteq> Some (RString v)) \<longrightarrow>
            r = Inr (\<lparr>Role = AIRole reply, Content = AIContent reply, CreatedAt = now\<rparr>, usage)
            \<and> db w' =
                saved cd u
                  (sm\<lparr>Title := (if Title sm = ''New chat'' \<and> TrimSpace (AIContent reply) \<noteq> []
                                 then summarizeTitle (AIContent reply) else Title sm),
                      UpdatedAt := now'\<rparr>)
                  ((db w)(chatMessagesKey c \<mapsto>
                     RList (log_of (db w) c @
                            [marshalMessage cd \<lparr>Role = AIRole reply, Content = AIContent reply,
                                                CreatedAt = now\<rparr>]))))"
    (is "?A \<and> ?B \<and> ?C \<and> ?D")
proof -
  let ?w2 = "advance (advance w)"
  have b4: "runs ?w2 \<le> 4" using runs_bound [of ?w2] by (simp add: maxRetries_def)
  have A: ?A
  proof (intro allI impI)
    fix e assume e: "ai model (prompt_of cd (db w) c) temperature = Inl e"
    show "isl r \<and> db w' = db w"
    proof (cases "served w \<and> served (advance w)
        \<and> (\<forall>v. db w (chatMessagesKey c) \<noteq> Some (RString v))")
      case False
      from RunCompletion_early [OF assms(1) False, of cd ai model temperature now now'] assms(2)
      show ?thesis by simp
    next
      case True
      with e assms show ?thesis
        by (auto simp: RunCompletion_def verifyOwner_eq fetchMessages_eq Let_def prompt_of_def)
    qed
  qed
  have B: ?B
  proof (intro allI impI)
    fix m usage assume "r = Inr (m, usage)"
    with assms(2) have "RunCompletion cd ai u c model temperature now now' w = (Inr (m, usage), w')"
      by simp
    then obtain reply sm where a: "ai model (prompt_of cd (db w) c) temperature = Inr (reply, usage)"
      and m: "m = \<lparr>Role = AIRole reply, Content = AIContent reply, CreatedAt = now\<rparr>"
      and sm: "summary_of cd (db w) c = Some sm"
      and n: "0 < runs ?w2"
      and d: "db w' = saved cd u (retitle sm (AIContent reply) now')
                   ((db w)(chatMessagesKey c \<mapsto>
                      RList (log_of (db w) c @ replicate (runs ?w2) (marshalMessage cd m))))"
      by (rule RunCompletion_db)
    let ?s = "sm\<lparr>Title := (if Title sm = ''New chat'' \<and> TrimSpace (AIContent reply) \<noteq> []
                            then summarizeTitle (AIContent reply) else Title sm),
                 UpdatedAt := now'\<rparr>"
    have s: "retitle sm (AIContent reply) now' = ?s" by (simp add: retitle_def)
    have f: "first_try ?w2 \<longrightarrow> runs ?w2 = 1" by (simp add: first_try_runs)
    from d have d': "db w' = saved cd u ?s
        ((db w)(chatMessagesKey c \<mapsto>
           RList (log_of (db w) c @ replicate (runs ?w2) (marshalMessage cd m))))"
      unfolding s .
    have l: "log_of (db w') c = log_of (db w) c @ replicate (runs ?w2) (marshalMessage cd m)"
      unfolding d' by (simp add: log_of_push_upd)
    have mt: "meta_of (db w') (ID sm) = Some (marshalSummary cd ?s)"
      unfolding d' by (simp add: meta_of_def)
    have ow: "owner_of (db w') (ID sm) = Some u"
      unfolding d' by (simp add: owner_of_def)
    have ix: "index_of (db w') u = ID sm # removeAll (ID sm) (index_of (db w) u)"
      unfolding d' by (simp add: index_of_saved)
    from a m sm n b4 f d' l mt ow ix
    show "\<exists>reply sm n.
               ai model (prompt_of cd (db w) c) temperature = Inr (reply, usage)
               \<and> m = \<lparr>Role = AIRole reply, Content = AIContent reply, CreatedAt = now\<rparr>
               \<and> summary_of cd (db w) c = Some sm
               \<and> 0 < n \<and> n \<le> 4 \<and> (first_try (advance (advance w)) \<longrightarrow> n = 1)
               \<and> db w' =
                   saved cd u
                     (sm\<lparr>Title := (if Title sm = ''New chat'' \<and> TrimSpace (AIContent reply) \<noteq> []
                                    then summarizeTitle (AIContent reply) else Title sm),
                         UpdatedAt := now'\<rparr>)
                     ((db w)(chatMessagesKey c \<mapsto>
                        RList (log_of (db w) c @ replicate n (marshalMessage cd m))))
               \<and> log_of (db w') c = log_of (db w) c @ replicate n (marshalMessage cd m)
               \<and> meta_of (db w') (ID sm) =
                   Some (marshalSummary cd
                     (sm\<lparr>Title := (if Title sm = ''New chat'' \<and> TrimSpace (AIContent reply) \<noteq> []
                                    then summarizeTitle (AIContent reply) else Title sm),
                         UpdatedAt := now'\<rparr>))
               \<and> owner_of (db w') (ID sm) = Some u
               \<and> index_of (db w') u = ID sm # removeAll (ID sm) (index_of (db w) u)"
      by blast
  qed
  have C: ?C
    using RunCompletion_log [OF assms] b4 by blast
  have D: ?D
  proof (intro allI impI, elim conjE)
    fix reply usage sm
    assume a: "ai model (prompt_of cd (db w) c) temperature = Inr (reply, usage)"
      and s5: "all_served 5 w" and sm: "summary_of cd (db w) c = Some sm"
      and k: "\<forall>v. db w (chatMessagesKey c) \<noteq> Some (RString v)"
      and i: "\<forall>v. db w (userChatsKey u) \<noteq> Some (RString v)"
    from RunCompletion_succeeds [of w c u cd sm ai model temperature reply usage now now',
        OF s5 assms(1) sm k i a] assms(2)
    show "r = Inr (\<lparr>Role = AIRole reply, Content = AIContent reply, CreatedAt = now\<rparr>, usage)
            \<and> db w' =
                saved cd u
                  (sm\<lparr>Title := (if Title sm = ''New chat'' \<and> TrimSpace (AIContent reply) \<noteq> []
                                 then summarizeTitle (AIContent reply) else Title sm),
                      UpdatedAt := now'\<rparr>)
                  ((db w)(chatMessagesKey c \<mapsto>
                     RList (log_of (db w) c @
                            [marshalMessage cd \<lparr>Role = AIRole reply, Content = AIContent reply,
                                                CreatedAt = now\<rparr>])))"
      by (auto simp: retitle_def)
  qed
  from A B C D show ?thesis by (intro conjI)
qed

theorem C8_run_completion_witness:
  "fst (RunCompletion unaryCodec fineBackend ''alice'' ''c1'' ''model-x'' 0.5 4 5
          \<lparr>db = aliceDb, net = []\<rparr>) =
     Inr (\<lparr>Role = ''assistant'', Content = ''fine'', CreatedAt = 4\<rparr>,
          \<lparr>PromptTokens = 0, CompletionTokens = 1, TotalTokens = 1\<rparr>)
   \<and> log_of (db (snd (RunCompletion unaryCodec fineBackend ''alice'' ''c1'' ''model-x'' 0.5 4 5
                       \<lparr>db = aliceDb, net = []\<rparr>))) ''c1'' =
       [marshalMessage unaryCodec \<lparr>Role = ''assistant'', Content = ''fine'', CreatedAt = 4\<rparr>]
   \<and> meta_of (db (snd (RunCompletion unaryCodec fineBackend ''alice'' ''c1'' ''model-x'' 0.5 4 5
                       \<lparr>db = aliceDb, net = []\<rparr>))) ''c1'' =
       Some (marshalSummary unaryCodec \<lparr>ID = ''c1'', Title = ''fine'', UpdatedAt = 5\<rparr>)
   \<and> isl (fst (RunCompletion unaryCodec downBackend ''alice'' ''c1'' ''model-x'' 0.5 4 5
                 \<lparr>db = aliceDb, net = []\<rparr>))
   \<and> db (snd (RunCompletion unaryCodec downBackend ''alice'' ''c1'' ''model-x'' 0.5 4 5
                \<lparr>db = aliceDb, net = []\<rparr>)) = aliceDb"
proof -
  let ?w = "\<lparr>db = aliceDb, net = []\<rparr>"
  let ?F = "RunCompletion unaryCodec fineBackend ''alice'' ''c1'' ''model-x'' 0.5 4 5 ?w"
  let ?D = "RunCompletion unaryCodec downBackend ''alice'' ''c1'' ''model-x'' 0.5 4 5 ?w"
  let ?reply = "\<lparr>AIRole = ''assistant'', AIContent = ''fine''\<rparr>"
  let ?usage = "\<lparr>PromptTokens = 0, CompletionTokens = 1, TotalTokens = 1\<rparr>"
  let ?sm = "\<lparr>ID = ''c1'', Title = ''New chat'', UpdatedAt = 1\<rparr>"
  let ?m = "\<lparr>Role = ''assistant'', Content = ''fine'', CreatedAt = 4\<rparr>"
  let ?d = "saved unaryCodec ''alice'' \<lparr>ID = ''c1'', Title = ''fine'', UpdatedAt = 5\<rparr>
              (aliceDb(chatMessagesKey ''c1'' \<mapsto> RList [marshalMessage unaryCodec ?m]))"
  have o: "db ?w (chatOwnerKey ''c1'') = Some (RString ''alice'')" by simp
  have l: "log_of (db ?w) ''c1'' = []" by (simp add: log_of_def)
  have a: "fineBackend ''model-x'' (prompt_of unaryCodec (db ?w) ''c1'') 0.5 = Inr (?reply, ?usage)"
    by (simp add: fineBackend_def prompt_of_def log_of_def List.map_filter_simps)
  have b: "downBackend ''model-x'' (prompt_of unaryCodec (db ?w) ''c1'') 0.5 = Inl CompletionError"
    by (simp add: downBackend_def)
  have s: "summary_of unaryCodec (db ?w) ''c1'' = Some ?sm"
    by (simp add: summary_of_def meta_of_def unary_summary_roundtrip)
  have t: "all_served 5 ?w" "\<forall>v. db ?w (chatMessagesKey ''c1'') \<noteq> Some (RString v)"
    "\<forall>v. db ?w (userChatsKey ''alice'') \<noteq> Some (RString v)"
    by simp_all
  note f = C8_run_completion [of ?w "''c1''" "''alice''" unaryCodec fineBackend "''model-x''" "0.5" 4 5,
      OF o surjective_pairing]
  note d = C8_run_completion [of ?w "''c1''" "''alice''" unaryCodec downBackend "''model-x''" "0.5" 4 5,
      OF o surjective_pairing]
  note fD = f [THEN conjunct2, THEN conjunct2, THEN conjunct2, rule_format, of ?reply ?usage ?sm]
  have fD': "fst ?F = Inr (?m, ?usage) \<and> db (snd ?F) = ?d"
    using fD a s t
    by (simp only: simp_thms AIMessage.simps ChatSummary.simps TrimSpace_fine summarizeTitle_take
        log_of_def world.simps aliceDb_at option.simps rvalue.simps append_Nil take_all_iff
        refl if_True) simp
  then have 1: "fst ?F = Inr (?m, ?usage)" and dF: "db (snd ?F) = ?d" by simp_all
  have 2: "log_of (db (snd ?F)) ''c1'' = [marshalMessage unaryCodec ?m]"
    unfolding dF by (simp add: log_of_push_upd)
  have 3: "meta_of (db (snd ?F)) ''c1'' =
      Some (marshalSummary unaryCodec \<lparr>ID = ''c1'', Title = ''fine'', UpdatedAt = 5\<rparr>)"
    unfolding dF by (simp add: meta_of_def)
  note dA = d [THEN conjunct1, rule_format, OF b]
  from dA have 4: "isl (fst ?D)" "db (snd ?D) = aliceDb" by (simp_all only: world.simps)
  from 1 2 3 4 show ?thesis by (intro conjI)
qed

section \<open>C3: the title of a chat\<close>




section \<open>C4: the order of the log\<close>

text \<open>
  C4, as stated, fails: the claim is that after N appends that succeed, \<open>GetChat\<close> returns
  exactly those N messages. \<open>alice\<close> has the chat \<open>c1\<close>, with an empty log, and appends the
  message \<open>hi\<close>. The ownership check is answered, the answer to the push of the message is
  lost, and the client sends the push again: \<open>AppendMessage\<close> succeeds, and the \<open>GetChat\<close>
  that follows returns the message twice.
\<close>

theorem C4_message_twice_counterexample:
  "fst (AppendMessage unaryCodec ''alice'' ''c1'' ''user'' ''hi'' 2 3
          (run unaryCodec fineBackend [CallNewChat ''alice'' '''' ''c1'' 1]
             (initial [Served, Served, ReplyLost, Served]))) =
     Inr \<lparr>Role = ''user'', Content = ''hi'', CreatedAt = 2\<rparr>
   \<and> fst (GetChat unaryCodec ''alice'' ''c1''
            (snd (AppendMessage unaryCodec ''alice'' ''c1'' ''user'' ''hi'' 2 3
                    (run unaryCodec fineBackend [CallNewChat ''alice'' '''' ''c1'' 1]
                       (initial [Served, Served, ReplyLost, Served]))))) =
       Inr \<lparr>Summary = \<lparr>ID = ''c1'', Title = ''hi'', UpdatedAt = 3\<rparr>,
            Messages = [\<lparr>Role = ''user'', Content = ''hi'', CreatedAt = 2\<rparr>,
                        \<lparr>Role = ''user'', Content = ''hi'', CreatedAt = 2\<rparr>]\<rparr>"
proof -
  let ?w = "\<lparr>db = aliceDb, net = [Served, ReplyLost, Served]\<rparr>"
  let ?w1 = "\<lparr>db = aliceDb, net = [ReplyLost, Served]\<rparr>"
  let ?m = "\<lparr>Role = ''user'', Content = ''hi'', CreatedAt = 2\<rparr>"
  let ?v = "marshalMessage unaryCodec ?m"
  let ?d = "aliceDb(chatMessagesKey ''c1'' \<mapsto> RList [?v, ?v])"
  let ?w2 = "\<lparr>db = ?d, net = []\<rparr>"
  let ?sm = "\<lparr>ID = ''c1'', Title = ''New chat'', UpdatedAt = 1\<rparr>"
  let ?sm' = "\<lparr>ID = ''c1'', Title = ''hi'', UpdatedAt = 3\<rparr>"
  let ?w3 = "\<lparr>db = saved unaryCodec ''alice'' ?sm' ?d, net = []\<rparr>"
  have r: "run unaryCodec fineBackend [CallNewChat ''alice'' '''' ''c1'' 1]
             (initial [Served, Served, ReplyLost, Served]) = ?w"
    by (rule run_alice(1))
  have o: "db ?w (chatOwnerKey ''c1'') = Some (RString ''alice'')" by simp
  have s: "served ?w" "advance ?w = ?w1" by (simp_all add: trip_Served)
  have p: "Redis_RPush (chatMessagesKey ''c1'') ?v ?w1 = (None, ?w2)"
    using RPush_served [of ?w1 "''c1''" ?v]
    by (simp add: trip_ReplyLost log_of_def numeral_2_eq_2)
  have sm: "summary_of unaryCodec (db ?w2) ''c1'' = Some ?sm"
    by (simp add: summary_of_def meta_of_def unary_summary_roundtrip)
  have t: "touchChat unaryCodec ''alice'' ''c1'' ''hi'' 3 ?w2 = (None, ?w3)"
    using touchChat_succeeds [of ?w2 unaryCodec "''c1''" ?sm "''alice''" "''hi''" 3] sm
    by (simp add: served_Nil retitle_def summarizeTitle_take TrimSpace_hi)
  have a: "AppendMessage unaryCodec ''alice'' ''c1'' ''user'' ''hi'' 2 3 ?w = (Inr ?m, ?w3)"
    unfolding AppendMessage_owner [OF o s(1)] s(2) by (simp add: p t)
  have g: "GetChat unaryCodec ''alice'' ''c1'' ?w3 =
      (Inr \<lparr>Summary = ?sm', Messages = [?m, ?m]\<rparr>, ?w3)"
    using GetChat_succeeds [of ?w3 "''c1''" "''alice''" unaryCodec ?sm']
    by (simp add: summary_of_saved unary_summary_roundtrip log_of_push_upd served_Nil
        List.map_filter_simps unary_message_roundtrip)
  show ?thesis
    unfolding r a snd_conv fst_conv g by simp
qed

text \<open>
  C4, amended. Let a sequence of appends to one chat by one user, each by \<open>AppendMessage\<close>
  or by \<open>RunCompletion\<close>, all succeed, one after the other. Then as many messages have been
  returned as there were appends (those of \<open>AppendMessage\<close> being the messages given), and
  the log is the old log followed by these messages in the order of the appends, each of
  them once for every attempt of its push that reached the server: at least once and at most
  four times in a row. A \<open>GetChat\<close> that then succeeds returns the old messages followed by
  what these entries decode to, in that order. When the network has no fault in store, each
  message is in the log exactly once, and, if the codec reads back the messages it has
  written, \<open>GetChat\<close> returns the old messages followed by exactly the new ones, in order.
  And \<open>GetChat\<close> does succeed after the appends, when the codec can read the summaries it
  writes and the three round trips are served at the first attempt.
\<close>

theorem C4_append_order:
  assumes "appendAll cd ai u c as w = (Some ms, w')"
  shows "length ms = length as
       \<and> list_all2 (\<lambda>a m. \<forall>role body t t'. a = ByUser role body t t'
                       \<longrightarrow> m = \<lparr>Role = role, Content = body, CreatedAt = t\<rparr>) as ms
       \<and> (\<exists>ks. length ks = length ms \<and> (\<forall>k\<in>set ks. 0 < k \<and> k \<le> 4)
            \<and> log_of (db w') c =
                log_of (db w) c @
                concat (map2 (\<lambda>k m. replicate k (marshalMessage cd m)) ks ms)
            \<and> (\<forall>v w''. GetChat cd u c w' = (Inr v, w'') \<longrightarrow>
                 Messages v =
                   List.map_filter (unmarshalMessage cd) (log_of (db w) c) @
                   concat (map2 (\<lambda>k m. case unmarshalMessage cd (marshalMessage cd m) of
                                          None \<Rightarrow> [] | Some m' \<Rightarrow> replicate k m') ks ms)))
       \<and> (faultless w \<longrightarrow>
            log_of (db w') c = log_of (db w) c @ map (marshalMessage cd) ms
            \<and> (\<forall>v w''. GetChat cd u c w' = (Inr v, w'')
                        \<and> (\<forall>m\<in>set ms. unmarshalMessage cd (marshalMessage cd m) = Some m) \<longrightarrow>
                 Messages v = List.map_filter (unmarshalMessage cd) (log_of (db w) c) @ ms))
       \<and> (as \<noteq> [] \<and> decodes cd \<and> all_served 3 w' \<longrightarrow> \<not> isl (fst (GetChat cd u c w')))"
    (is "?A \<and> ?B \<and> ?C \<and> ?D \<and> ?E")
proof -
  from appendAll_log [OF assms] obtain ks where ks: "length ks = length ms"
    and len: "length ms = length as"
    and b: "\<forall>k\<in>set ks. 0 < k \<and> k \<le> 4"
    and f: "faultless w \<longrightarrow> (\<forall>k\<in>set ks. k = 1) \<and> faultless w'"
    and l: "log_of (db w') c =
                log_of (db w) c @
                concat (map2 (\<lambda>k m. replicate k (marshalMessage cd m)) ks ms)"
    and B: ?B
    by blast
  have g: "Messages v =
        List.map_filter (unmarshalMessage cd) (log_of (db w) c) @
        concat (map2 (\<lambda>k m. case unmarshalMessage cd (marshalMessage cd m) of
                               None \<Rightarrow> [] | Some m' \<Rightarrow> replicate k m') ks ms)"
    if "GetChat cd u c w' = (Inr v, w'')" for v w''
    using GetChat_Inr(3) [OF that] unfolding l
    by (simp add: map_filter_append map_filter_copies)
  from ks b l g have C: ?C by blast
  have D: ?D
  proof
    assume fw: "faultless w"
    with f have one: "\<forall>k\<in>set ks. k = 1" by simp
    have l1: "log_of (db w') c = log_of (db w) c @ map (marshalMessage cd) ms"
      unfolding l copies_once [OF ks one] ..
    have "Messages v = List.map_filter (unmarshalMessage cd) (log_of (db w) c) @ ms"
      if "GetChat cd u c w' = (Inr v, w'')"
        and "\<forall>m\<in>set ms. unmarshalMessage cd (marshalMessage cd m) = Some m" for v w''
      using GetChat_Inr(3) [OF that(1)] unfolding l1
      by (simp add: map_filter_append
          map_filter_all [of ms "unmarshalMessage cd" "marshalMessage cd", OF that(2)])
    with l1 show "log_of (db w') c = log_of (db w) c @ map (marshalMessage cd) ms
            \<and> (\<forall>v w''. GetChat cd u c w' = (Inr v, w'')
                        \<and> (\<forall>m\<in>set ms. unmarshalMessage cd (marshalMessage cd m) = Some m) \<longrightarrow>
                 Messages v = List.map_filter (unmarshalMessage cd) (log_of (db w) c) @ ms)"
      by blast
  qed
  have E: ?E
  proof (intro impI, elim conjE)
    assume ne: "as \<noteq> []" and dc: "decodes cd" and s3: "all_served 3 w'"
    from appendAll_after [OF assms ne] dc obtain s where
      "db w' (chatOwnerKey c) = Some (RString u)" "summary_of cd (db w') c = Some s"
      "\<forall>v. db w' (chatMessagesKey c) \<noteq> Some (RString v)"
      by auto
    from GetChat_succeeds [OF s3 this] show "\<not> isl (fst (GetChat cd u c w'))" by simp
  qed
  from len B C D E show ?thesis by (intro conjI)
qed

theorem C4_append_order_witness:
  "fst (appendAll unaryCodec fineBackend ''alice'' ''c1''
          [ByUser ''user'' ''hi'' 2 3, ByBackend ''model-x'' 0.5 4 5] \<lparr>db = aliceDb, net = []\<rparr>) =
     Some [\<lparr>Role = ''user'', Content = ''hi'', CreatedAt = 2\<rparr>,
           \<lparr>Role = ''assistant'', Content = ''fine'', CreatedAt = 4\<rparr>]
   \<and> log_of (db (snd (appendAll unaryCodec fineBackend ''alice'' ''c1''
          [ByUser ''user'' ''hi'' 2 3, ByBackend ''model-x'' 0.5 4 5] \<lparr>db = aliceDb, net = []\<rparr>)))
        ''c1'' =
       [marshalMessage unaryCodec \<lparr>Role = ''user'', Content = ''hi'', CreatedAt = 2\<rparr>,
        marshalMessage unaryCodec \<lparr>Role = ''assistant'', Content = ''fine'', CreatedAt = 4\<rparr>]
   \<and> (case fst (GetChat unaryCodec ''alice'' ''c1''
                   (snd (appendAll unaryCodec fineBackend ''alice'' ''c1''
                           [ByUser ''user'' ''hi'' 2 3, ByBackend ''model-x'' 0.5 4 5]
                           \<lparr>db = aliceDb, net = []\<rparr>))) of
         Inl e \<Rightarrow> None | Inr v \<Rightarrow> Some (Messages v)) =
       Some [\<lparr>Role = ''user'', Content = ''hi'', CreatedAt = 2\<rparr>,
             \<lparr>Role = ''assistant'', Content = ''fine'', CreatedAt = 4\<rparr>]"
proof -
  let ?w = "\<lparr>db = aliceDb, net = []\<rparr>"
  let ?as = "[ByUser ''user'' ''hi'' 2 3, ByBackend ''model-x'' 0.5 4 5]"
  let ?m1 = "\<lparr>Role = ''user'', Content = ''hi'', CreatedAt = 2\<rparr>"
  let ?m2 = "\<lparr>Role = ''assistant'', Content = ''fine'', CreatedAt = 4\<rparr>"
  let ?sm = "\<lparr>ID = ''c1'', Title = ''New chat'', UpdatedAt = 1\<rparr>"
  let ?sm1 = "\<lparr>ID = ''c1'', Title = ''hi'', UpdatedAt = 3\<rparr>"
  let ?d1 = "saved unaryCodec ''alice'' ?sm1
               (aliceDb(chatMessagesKey ''c1'' \<mapsto> RList [marshalMessage unaryCodec ?m1]))"
  let ?w1 = "\<lparr>db = ?d1, net = []\<rparr>"
  let ?reply = "\<lparr>AIRole = ''assistant'', AIContent = ''fine''\<rparr>"
  let ?A = "appendAll unaryCodec fineBackend ''alice'' ''c1'' ?as ?w"
  have s0: "summary_of unaryCodec (db ?w) ''c1'' = Some ?sm"
    by (simp add: summary_of_def meta_of_def unary_summary_roundtrip)
  have a1: "AppendMessage unaryCodec ''alice'' ''c1'' ''user'' ''hi'' 2 3 ?w = (Inr ?m1, ?w1)"
    using AppendMessage_succeeds [of ?w "''c1''" "''alice''" unaryCodec ?sm "''user''" "''hi''" 2 3] s0
    by (simp add: retitle_def summarizeTitle_take TrimSpace_hi served_Nil log_of_def)
  have s1: "summary_of unaryCodec (db ?w1) ''c1'' = Some ?sm1"
    by (simp add: summary_of_saved unary_summary_roundtrip)
  obtain usage where b: "fineBackend ''model-x'' (prompt_of unaryCodec (db ?w1) ''c1'') 0.5 =
      Inr (?reply, usage)"
    by (simp add: fineBackend_def)
  define w2 where
    "w2 = snd (RunCompletion unaryCodec fineBackend ''alice'' ''c1'' ''model-x'' 0.5 4 5 ?w1)"
  have r2: "fst (RunCompletion unaryCodec fineBackend ''alice'' ''c1'' ''model-x'' 0.5 4 5 ?w1) =
      Inr (?m2, usage)" "net w2 = []"
    unfolding w2_def
    using RunCompletion_succeeds [of ?w1 "''c1''" "''alice''" unaryCodec ?sm1 fineBackend
        "''model-x''" "0.5" ?reply usage 4 5] s1 b
    by (simp_all add: served_Nil)
  have a2: "RunCompletion unaryCodec fineBackend ''alice'' ''c1'' ''model-x'' 0.5 4 5 ?w1 =
      (Inr (?m2, usage), w2)"
    unfolding w2_def using r2(1) by (metis prod.collapse)
  have e: "?A = (Some [?m1, ?m2], w2)"
    unfolding appendAll.simps appendOne.simps a1 prod.case sum.case a2 by simp
  then have 1: "fst ?A = Some [?m1, ?m2]" and w2: "snd ?A = w2" by simp_all
  have n: "net (snd ?A) = []" unfolding w2 by (rule r2(2))
  have fl: "faultless ?w" by (simp add: faultless_def)
  have l0: "log_of (db ?w) ''c1'' = []" by (simp add: log_of_def)
  note c = C4_append_order [OF e [folded w2]]
  note cD = c [THEN conjunct2, THEN conjunct2, THEN conjunct2, THEN conjunct1, rule_format, OF fl]
  note cE = c [THEN conjunct2, THEN conjunct2, THEN conjunct2, THEN conjunct2, rule_format]
  from cD have 2: "log_of (db (snd ?A)) ''c1'' =
      [marshalMessage unaryCodec ?m1, marshalMessage unaryCodec ?m2]"
    by (simp only: l0 append_Nil list.map)
  have ne: "?as \<noteq> []" by simp
  have s3: "all_served 3 (snd ?A)" by (rule all_served_Nil [OF n])
  have "\<not> isl (fst (GetChat unaryCodec ''alice'' ''c1'' (snd ?A)))"
    by (rule cE [OF conjI [OF ne conjI [OF unary_decodes s3]]])
  then obtain v where v: "fst (GetChat unaryCodec ''alice'' ''c1'' (snd ?A)) = Inr v"
    by (cases "fst (GetChat unaryCodec ''alice'' ''c1'' (snd ?A))") simp_all
  then have g: "GetChat unaryCodec ''alice'' ''c1'' (snd ?A) =
      (Inr v, snd (GetChat unaryCodec ''alice'' ''c1'' (snd ?A)))"
    by (metis prod.collapse)
  have rt: "\<forall>m\<in>set [?m1, ?m2]. unmarshalMessage unaryCodec (marshalMessage unaryCodec m) = Some m"
    by (simp add: unary_message_roundtrip)
  from cD [THEN conjunct2, rule_format, OF conjI, OF g rt]
  have "Messages v = [?m1, ?m2]"
    by (simp only: l0 List.map_filter_simps append_Nil)
  with v have 3: "(case fst (GetChat unaryCodec ''alice'' ''c1'' (snd ?A)) of
         Inl e \<Rightarrow> None | Inr v \<Rightarrow> Some (Messages v)) = Some [?m1, ?m2]"
    by simp
  from 1 2 3 show ?thesis by (intro conjI)
qed

end
